theory Spec2Isabelle
  imports Main "HOL-Library.AList" "HOL-Library.Char_ord" "HOL-Library.List_Lexorder"
begin

section \<open>Documents\<close>

text \<open>
  The aggregator (\<^verbatim>\<open>src/src/docaggregate.py\<close>) works on what \<^verbatim>\<open>yaml.safe_load\<close>
  returns: nested Python dicts, lists and scalars. A dict is modelled as an association
  list in insertion order (Python dicts iterate in insertion order, and the walker and
  the merge both depend on that order); a Python dict never holds a key twice, which is
  the side condition \<open>distinct (map fst d)\<close> wherever a theorem needs it. Mapping keys are
  strings. Floating-point scalars, dates and binary values are not modelled.
  \<^verbatim>\<open>copy.deepcopy\<close> is the identity on these immutable values.
\<close>

datatype yaml =
    YNull
  | YBool bool
  | YInt int
  | YStr string
  | YList "yaml list"
  | YDict "(string \<times> yaml) list"

type_synonym ydict = "(string \<times> yaml) list"

text \<open>The exceptions the modelled code can raise on these values.\<close>

datatype error = TypeError | AttributeError

text \<open>
  Member names and ancestor names are used as keys of a Python dict or set. Hashing a
  list or a dict raises \<^verbatim>\<open>TypeError\<close>; \<^verbatim>\<open>True\<close> and \<^verbatim>\<open>1\<close> are the same key.
\<close>

datatype key = KNone | KNum int | KStr string

fun hash_key :: "yaml \<Rightarrow> error + key" where
  "hash_key YNull = Inr KNone"
| "hash_key (YBool b) = Inr (KNum (if b then 1 else 0))"
| "hash_key (YInt i) = Inr (KNum i)"
| "hash_key (YStr s) = Inr (KStr s)"
| "hash_key (YList xs) = Inl TypeError"
| "hash_key (YDict d) = Inl TypeError"

fun key_str :: "key \<Rightarrow> string option" where
  "key_str (KStr s) = Some s"
| "key_str k = None"

fun key_num :: "key \<Rightarrow> int option" where
  "key_num (KNum i) = Some i"
| "key_num k = None"

text \<open>
  \<^verbatim>\<open>sorted(named_items.keys())\<close>: the keys are pairwise different. Strings compare
  with strings (by code point) and numbers with numbers; any other pair of keys raises
  \<^verbatim>\<open>TypeError\<close>, and sorting two or more keys has to compare across the kinds present.
\<close>

definition sorted_keys :: "key list \<Rightarrow> error + key list" where
  "sorted_keys ks =
     (if length ks \<le> 1 then Inr ks
      else if list_all (\<lambda>k. key_str k \<noteq> None) ks
        then Inr (map KStr (sort (map (\<lambda>k. the (key_str k)) ks)))
      else if list_all (\<lambda>k. key_num k \<noteq> None) ks
        then Inr (map KNum (sort (map (\<lambda>k. the (key_num k)) ks)))
      else Inl TypeError)"

text \<open>\<^verbatim>\<open>isinstance(v, dict)\<close>, \<^verbatim>\<open>isinstance(v, list)\<close> and Python truthiness.\<close>

fun is_dict :: "yaml \<Rightarrow> bool" where
  "is_dict (YDict d) = True"
| "is_dict v = False"

fun is_list :: "yaml \<Rightarrow> bool" where
  "is_list (YList xs) = True"
| "is_list v = False"

fun the_dict :: "yaml \<Rightarrow> ydict" where
  "the_dict (YDict d) = d"
| "the_dict v = []"

fun the_list :: "yaml \<Rightarrow> yaml list" where
  "the_list (YList xs) = xs"
| "the_list v = []"

fun truthy :: "yaml \<Rightarrow> bool" where
  "truthy YNull = False"
| "truthy (YBool b) = b"
| "truthy (YInt i) = (i \<noteq> 0)"
| "truthy (YStr s) = (s \<noteq> [])"
| "truthy (YList xs) = (xs \<noteq> [])"
| "truthy (YDict d) = (d \<noteq> [])"

text \<open>\<^verbatim>\<open>d.get(k)\<close>: a missing key reads as \<^verbatim>\<open>None\<close>, which is YAML's null.\<close>

definition dict_get :: "ydict \<Rightarrow> string \<Rightarrow> yaml" where
  "dict_get d k = (case map_of d k of None \<Rightarrow> YNull | Some v \<Rightarrow> v)"

text \<open>\<^verbatim>\<open>a or b\<close>.\<close>

definition py_or :: "yaml \<Rightarrow> yaml \<Rightarrow> yaml" where
  "py_or a b = (if truthy a then a else b)"

section \<open>The structural merge\<close>

definition MERGE_LIST_KEYS :: "string set" where
  "MERGE_LIST_KEYS = {''properties'', ''methods'', ''events'', ''callbacks'',
                      ''members'', ''fields'', ''items'', ''parameters''}"

text \<open>
  \<^verbatim>\<open>isinstance(it_copy, dict) and "name" in it_copy\<close>: the value under \<^verbatim>\<open>name\<close> of a
  named member, \<open>None\<close> for an entry that is kept positionally.
\<close>

fun member_name :: "yaml \<Rightarrow> yaml option" where
  "member_name (YDict d) = map_of d ''name''"
| "member_name v = None"

text \<open>
  The loop over the base items (lines 132-137). \<open>named\<close> is the dict \<^verbatim>\<open>named_items\<close>,
  \<open>merged\<close> the list \<^verbatim>\<open>merged\<close>. Assigning to a key that is present replaces the value in
  place, assigning to a new key appends it: \<open>AList.update\<close>.
\<close>

fun base_members ::
  "(key \<times> yaml) list \<Rightarrow> yaml list \<Rightarrow> yaml list \<Rightarrow> error + ((key \<times> yaml) list \<times> yaml list)"
where
  "base_members named merged [] = Inr (named, merged)"
| "base_members named merged (it # rest) =
     (case member_name it of
        None \<Rightarrow> base_members named (merged @ [it]) rest
      | Some nv \<Rightarrow>
          (case hash_key nv of
             Inl e \<Rightarrow> Inl e
           | Inr n \<Rightarrow> base_members (AList.update n it named) merged rest))"

text \<open>
  \<^verbatim>\<open>deep_merge\<close> (lines 94-171). \<open>merge_items result child\<close> is the loop over
  \<^verbatim>\<open>child.items()\<close> acting on \<^verbatim>\<open>result\<close>, which starts as the copy of \<^verbatim>\<open>base\<close>;
  \<open>merge_members\<close> is the loop over the child items of a member group (lines 140-150).
\<close>

function deep_merge :: "yaml \<Rightarrow> yaml \<Rightarrow> error + yaml"
  and merge_items :: "ydict \<Rightarrow> ydict \<Rightarrow> error + ydict"
  and merge_members ::
    "(key \<times> yaml) list \<Rightarrow> yaml list \<Rightarrow> yaml list \<Rightarrow> error + ((key \<times> yaml) list \<times> yaml list)"
where
  "deep_merge base child =
     (if \<not> is_dict base \<or> \<not> is_dict child then Inr child
      else (case merge_items (the_dict base) (the_dict child) of
              Inl e \<Rightarrow> Inl e
            | Inr result \<Rightarrow> Inr (YDict result)))"
| "merge_items result [] = Inr result"
| "merge_items result ((k, child_val) # rest) =
     (case map_of result k of
        None \<Rightarrow> merge_items (AList.update k child_val result) rest
      | Some base_val \<Rightarrow>
          if is_dict base_val \<and> is_dict child_val then
            (case deep_merge base_val child_val of
               Inl e \<Rightarrow> Inl e
             | Inr v \<Rightarrow> merge_items (AList.update k v result) rest)
          else if is_list base_val \<and> is_list child_val then
            (if k \<in> MERGE_LIST_KEYS then
               (case base_members [] [] (the_list base_val) of
                  Inl e \<Rightarrow> Inl e
                | Inr (named0, merged0) \<Rightarrow>
                    (case merge_members named0 merged0 (the_list child_val) of
                       Inl e \<Rightarrow> Inl e
                     | Inr (named, merged) \<Rightarrow>
                         (case sorted_keys (map fst named) of
                            Inl e \<Rightarrow> Inl e
                          | Inr ns \<Rightarrow>
                              merge_items
                                (AList.update k
                                   (YList (merged @ map (\<lambda>n. the (map_of named n)) ns)) result)
                                rest)))
             else merge_items (AList.update k child_val result) rest)
          else merge_items (AList.update k child_val result) rest)"
| "merge_members named merged [] = Inr (named, merged)"
| "merge_members named merged (it # rest) =
     (case member_name it of
        None \<Rightarrow> merge_members named (merged @ [it]) rest
      | Some nv \<Rightarrow>
          (case hash_key nv of
             Inl e \<Rightarrow> Inl e
           | Inr n \<Rightarrow>
               (case map_of named n of
                  Some prev \<Rightarrow>
                    (case deep_merge prev it of
                       Inl e \<Rightarrow> Inl e
                     | Inr m \<Rightarrow> merge_members (AList.update n m named) merged rest)
                | None \<Rightarrow> merge_members (AList.update n it named) merged rest)))"
  by pat_completeness auto

termination
  by (relation "measure (\<lambda>x. case x of
            Inl (b, c) \<Rightarrow> size c
          | Inr (Inl (r, cs)) \<Rightarrow> size_list (size_prod (\<lambda>_. 0) size) cs
          | Inr (Inr (n, m, xs)) \<Rightarrow> size_list size xs)")
     (auto elim!: is_dict.elims(2) is_list.elims(2))

section \<open>Base references\<close>

text \<open>What one base-reference field contributes (lines 264-267).\<close>

fun base_field_names :: "yaml \<Rightarrow> string list" where
  "base_field_names (YStr s) = [s]"
| "base_field_names (YList xs) = concat (map (\<lambda>v. case v of YStr s \<Rightarrow> [s] | _ \<Rightarrow> []) xs)"
| "base_field_names v = []"

definition BASE_KEYS :: "string list" where
  "BASE_KEYS = [''inherits'', ''extends'', ''superclass'', ''superclasses'', ''bases'']"

text \<open>\<^verbatim>\<open>get_base_names\<close> (lines 255-268): the loop over the five keys, \<open>names\<close> its accumulator.\<close>

definition get_base_names :: "ydict \<Rightarrow> string list" where
  "get_base_names obj =
     fold (\<lambda>k names. case map_of obj k of
                       None \<Rightarrow> names
                     | Some val \<Rightarrow> names @ base_field_names val)
          BASE_KEYS []"

text \<open>
  The reading of the specification, for comparison: only the first field that is present,
  in the priority order, is consulted.
\<close>

fun first_present_names :: "ydict \<Rightarrow> string list \<Rightarrow> string list" where
  "first_present_names obj [] = []"
| "first_present_names obj (k # ks) =
     (case map_of obj k of
        None \<Rightarrow> first_present_names obj ks
      | Some val \<Rightarrow> base_field_names val)"

definition two_base_fields :: ydict where
  "two_base_fields = [(''inherits'', YStr ''A''), (''extends'', YStr ''B'')]"


section \<open>Member groups\<close>

text \<open>
  Vocabulary for stating what the merge of a member group yields. \<open>name_str\<close> is the name
  of a member whose name is a string; \<open>unnamed\<close> are the entries kept positionally,
  \<open>named_members\<close> the others; \<open>member_names\<close> lists the names in document order.
\<close>

definition name_str :: "yaml \<Rightarrow> string option" where
  "name_str it = (case member_name it of Some (YStr s) \<Rightarrow> Some s | _ \<Rightarrow> None)"

definition unnamed :: "yaml list \<Rightarrow> yaml list" where
  "unnamed xs = filter (\<lambda>it. member_name it = None) xs"

definition named_members :: "yaml list \<Rightarrow> yaml list" where
  "named_members xs = filter (\<lambda>it. member_name it \<noteq> None) xs"

definition string_named :: "yaml list \<Rightarrow> bool" where
  "string_named xs \<longleftrightarrow> list_all (\<lambda>it. member_name it = None \<or> name_str it \<noteq> None) xs"

definition member_names :: "yaml list \<Rightarrow> string list" where
  "member_names xs = map (\<lambda>it. the (name_str it)) (named_members xs)"

text \<open>
  A document is well named when every \<^verbatim>\<open>name\<close> entry of every mapping in it is a
  string. On such documents no key is unhashable and all keys of a group sort together.
\<close>

fun is_str :: "yaml \<Rightarrow> bool" where
  "is_str (YStr s) = True"
| "is_str v = False"

fun the_str :: "yaml \<Rightarrow> string" where
  "the_str (YStr s) = s"
| "the_str v = []"

fun well_named :: "yaml \<Rightarrow> bool" where
  "well_named (YDict d) =
     list_all (\<lambda>kv. well_named (snd kv) \<and> (fst kv = ''name'' \<longrightarrow> is_str (snd kv))) d"
| "well_named (YList xs) = list_all well_named xs"
| "well_named v = True"


definition wn_named :: "(key \<times> yaml) list \<Rightarrow> bool" where
  "wn_named named \<longleftrightarrow> list_all (\<lambda>kv. well_named (snd kv) \<and> key_str (fst kv) \<noteq> None) named"

text \<open>
  \<open>merged_field b f v\<close>: the value \<open>v\<close> of the child under \<open>f\<close> meets in \<open>b\<close> a value with
  which it is merged rather than one it replaces: two mappings, or two sequences under a
  member-group key.
\<close>

definition merged_field :: "ydict \<Rightarrow> string \<Rightarrow> yaml \<Rightarrow> bool" where
  "merged_field b f v \<longleftrightarrow>
     (is_dict (dict_get b f) \<and> is_dict v) \<or>
     (is_list (dict_get b f) \<and> is_list v \<and> f \<in> MERGE_LIST_KEYS)"

text \<open>The member groups of the specification's example.\<close>

definition spec_base :: ydict where
  "spec_base = [(''name'', YStr ''Thing''),
                (''members'', YList [YDict [(''name'', YStr ''X''), (''desc'', YStr ''b'')]])]"

definition spec_child :: ydict where
  "spec_child = [(''members'', YList [YDict [(''name'', YStr ''X''), (''desc'', YStr ''c'')],
                                       YDict [(''name'', YStr ''Y''), (''desc'', YStr ''c2'')]])]"

text \<open>
  Member groups outside these conditions: a number and a string as names, a sequence as
  a name, and one name twice on the same side.
\<close>

definition mixed_name_base :: ydict where
  "mixed_name_base = [(''members'', YList [YDict [(''name'', YInt 1)]])]"

definition mixed_name_child :: ydict where
  "mixed_name_child = [(''members'', YList [YDict [(''name'', YStr ''one'')]])]"

definition list_name_base :: ydict where
  "list_name_base = [(''members'', YList [YDict [(''name'', YList [YStr ''X''])]])]"

definition dup_name_base :: ydict where
  "dup_name_base = [(''members'', YList [YDict [(''name'', YStr ''X''), (''desc'', YStr ''b1'')],
                                         YDict [(''name'', YStr ''X''), (''desc'', YStr ''b2'')]])]"

definition no_members :: ydict where
  "no_members = [(''members'', YList [])]"


section \<open>Inheritance resolution\<close>

text \<open>
  An entry of the record index (lines 292-297). \<^verbatim>\<open>load_engine_objects\<close> reads
  \<^verbatim>\<open>data.get("name")\<close> from every body it indexes, so a body that is not a mapping never
  becomes an entry: \<open>data\<close> is a dict, and \<^verbatim>\<open>entry["data"] or {}\<close> is that dict. Entry
  names are strings.
\<close>

record entry =
  name :: string
  kind :: yaml
  path :: string
  data :: ydict

datatype event = Resolved string | Merged string

record rstate =
  cache :: "string \<rightharpoonup> ydict"
  trace :: "event list"

fun dedupe :: "key set \<Rightarrow> yaml list \<Rightarrow> yaml list \<Rightarrow> error + yaml list" where
  "dedupe seen deduped [] = Inr deduped"
| "dedupe seen deduped (a # rest) =
     (case hash_key a of
        Inl e \<Rightarrow> Inl e
      | Inr k \<Rightarrow> if k \<in> seen then dedupe seen deduped rest
                 else dedupe (insert k seen) (deduped @ [a]) rest)"

definition own_only :: "string \<Rightarrow> ydict \<Rightarrow> ydict \<Rightarrow> ydict" where
  "own_only k body merged =
     (case map_of body k of
        Some v \<Rightarrow> AList.update k v merged
      | None \<Rightarrow> AList.delete k merged)"

fun build_merged_for_entry ::
    "nat \<Rightarrow> (string \<rightharpoonup> entry) \<Rightarrow> entry \<Rightarrow> rstate \<Rightarrow> (error + (ydict \<times> rstate)) option"
  and resolve_bases ::
    "nat \<Rightarrow> (string \<rightharpoonup> entry) \<Rightarrow> string list \<Rightarrow> yaml \<Rightarrow> yaml list \<Rightarrow> rstate
       \<Rightarrow> (error + (yaml \<times> yaml list \<times> rstate)) option"
where
  "build_merged_for_entry 0 name_index ent st = None"
| "build_merged_for_entry (Suc fuel) name_index ent st =
     (case cache st (name ent) of
        Some view \<Rightarrow> Some (Inr (view, st))
      | None \<Rightarrow>
          (case resolve_bases fuel name_index (get_base_names (data ent)) (YDict (data ent)) []
                  (st\<lparr>trace := trace st @ [Resolved (name ent)]\<rparr>) of
             None \<Rightarrow> None
           | Some (Inl e) \<Rightarrow> Some (Inl e)
           | Some (Inr (merged, ancestors, st')) \<Rightarrow>
               (case dedupe {} [] ancestors of
                  Inl e \<Rightarrow> Some (Inl e)
                | Inr deduped \<Rightarrow>
                    (case merged of
                       YDict m \<Rightarrow>
                         (let view = own_only ''descendants'' (data ent)
                                       (AList.update ''_ancestors'' (YList deduped) m)
                          in Some (Inr (view, st'\<lparr>cache := (cache st')(name ent \<mapsto> view)\<rparr>)))
                     | _ \<Rightarrow> Some (Inl TypeError)))))"
| "resolve_bases fuel name_index [] merged ancestors st = Some (Inr (merged, ancestors, st))"
| "resolve_bases fuel name_index (base_name # rest) merged ancestors st =
     (case name_index base_name of
        None \<Rightarrow> resolve_bases fuel name_index rest merged ancestors st
      | Some base_entry \<Rightarrow>
          (case build_merged_for_entry fuel name_index base_entry st of
             None \<Rightarrow> None
           | Some (Inl e) \<Rightarrow> Some (Inl e)
           | Some (Inr (base_merged, st1)) \<Rightarrow>
               (case deep_merge (YDict base_merged) merged of
                  Inl e \<Rightarrow> Some (Inl e)
                | Inr merged' \<Rightarrow>
                    resolve_bases fuel name_index rest merged'
                      (ancestors @ [YStr base_name] @
                         (case map_of base_merged ''_ancestors'' of
                            Some (YList xs) \<Rightarrow> xs
                          | _ \<Rightarrow> []))
                      (st1\<lparr>trace := trace st1 @ [Merged base_name]\<rparr>))))"

definition init_state :: rstate where
  "init_state = \<lparr>cache = Map.empty, trace = []\<rparr>"

definition e_base :: entry where
  "e_base = \<lparr>name = ''Base'', kind = YNull, path = ''classes/Base.yaml'',
     data = [(''name'', YStr ''Base''), (''inherits'', YStr ''Root''), (''descendants'', YList [YStr ''Leaf''])]\<rparr>"
definition e_leaf :: entry where
  "e_leaf = \<lparr>name = ''Leaf'', kind = YNull, path = ''classes/Leaf.yaml'',
     data = [(''extends'', YStr ''Base'')]\<rparr>"
definition idx0 :: "string \<rightharpoonup> entry" where
  "idx0 = [''Base'' \<mapsto> e_base, ''Leaf'' \<mapsto> e_leaf]"


text \<open>A leaf whose only declared base has no record.\<close>

definition e_ghost :: entry where
  "e_ghost = \<lparr>name = ''Leaf'', kind = YStr ''class'', path = ''classes/Leaf.yaml'',
     data = [(''name'', YStr ''Leaf''), (''inherits'', YList [YStr ''Ghost'']), (''summary'', YStr ''a leaf'')]\<rparr>"


text \<open>A record without a \<^verbatim>\<open>name\<close> of its own, indexed under its file stem.\<close>

definition e_nameless :: entry where
  "e_nameless = \<lparr>name = ''Widget'', kind = YNull, path = ''classes/Widget.yaml'',
     data = [(''inherits'', YList [YStr ''Base'']), (''summary'', YStr ''a widget'')]\<rparr>"

text \<open>
  The file defines \<^verbatim>\<open>build_merged_for_entry\<close> twice. The definition at lines 311-358,
  modelled above, rebinds the name before anything is called, so it is the one that runs.
  The body of the first definition (lines 174-252) is modelled here for comparison; the
  call it makes for a base goes through the module-level name, that is, to the later
  definition. After the merge it forces \<^verbatim>\<open>name\<close>, \<^verbatim>\<open>inherits\<close>, \<^verbatim>\<open>descendants\<close>,
  \<^verbatim>\<open>tags\<close> and a non-empty \<^verbatim>\<open>deprecation_message\<close> from the leaf's own body
  (lines 222-249).
\<close>

fun build_merged_for_entry_shadowed ::
    "nat \<Rightarrow> (string \<rightharpoonup> entry) \<Rightarrow> entry \<Rightarrow> rstate \<Rightarrow> (error + (ydict \<times> rstate)) option"
where
  "build_merged_for_entry_shadowed 0 name_index ent st = None"
| "build_merged_for_entry_shadowed (Suc fuel) name_index ent st =
     (case cache st (name ent) of
        Some view \<Rightarrow> Some (Inr (view, st))
      | None \<Rightarrow>
          (case resolve_bases fuel name_index (get_base_names (data ent)) (YDict (data ent)) []
                  (st\<lparr>trace := trace st @ [Resolved (name ent)]\<rparr>) of
             None \<Rightarrow> None
           | Some (Inl e) \<Rightarrow> Some (Inl e)
           | Some (Inr (merged, ancestors, st')) \<Rightarrow>
               (case dedupe {} [] ancestors of
                  Inl e \<Rightarrow> Some (Inl e)
                | Inr deduped \<Rightarrow>
                    (case merged of
                       YDict m \<Rightarrow>
                         (let m1 = AList.update ''_ancestors'' (YList deduped) m;
                              m2 = AList.update ''name''
                                     (case map_of (data ent) ''name'' of
                                        Some v \<Rightarrow> v
                                      | None \<Rightarrow> YStr (name ent)) m1;
                              m3 = own_only ''inherits'' (data ent) m2;
                              m4 = own_only ''descendants'' (data ent) m3;
                              m5 = (case map_of (data ent) ''tags'' of
                                      Some t \<Rightarrow> AList.update ''tags'' t m4
                                    | None \<Rightarrow> m4);
                              view = (case map_of (data ent) ''deprecation_message'' of
                                        Some d \<Rightarrow> if truthy d
                                                  then AList.update ''deprecation_message'' d m5
                                                  else m5
                                      | None \<Rightarrow> m5)
                          in Some (Inr (view, st'\<lparr>cache := (cache st')(name ent \<mapsto> view)\<rparr>)))
                     | _ \<Rightarrow> Some (Inl TypeError)))))"



text \<open>
  Python dicts hold every key once. These are the corresponding conditions on the views
  already in the cache and on the bodies in the record index.
\<close>

definition distinct_views :: "rstate \<Rightarrow> bool" where
  "distinct_views st \<longleftrightarrow> (\<forall>n view. cache st n = Some view \<longrightarrow> distinct (map fst view))"

definition distinct_bodies :: "(string \<rightharpoonup> entry) \<Rightarrow> bool" where
  "distinct_bodies idx \<longleftrightarrow> (\<forall>n e. idx n = Some e \<longrightarrow> distinct (map fst (data e)))"

text \<open>A base without a deprecation notice and a leaf that declares one.\<close>

definition e_plain_base :: entry where
  "e_plain_base = \<lparr>name = ''Base'', kind = YStr ''class'', path = ''classes/Base.yaml'',
     data = [(''name'', YStr ''Base''), (''summary'', YStr ''the base'')]\<rparr>"

definition e_deprecated :: entry where
  "e_deprecated = \<lparr>name = ''Old'', kind = YStr ''class'', path = ''classes/Old.yaml'',
     data = [(''name'', YStr ''Old''), (''inherits'', YList [YStr ''Base'']),
             (''deprecation_message'', YStr ''use New'')]\<rparr>"

definition idx_dep :: "string \<rightharpoonup> entry" where
  "idx_dep = [''Base'' \<mapsto> e_plain_base, ''Old'' \<mapsto> e_deprecated]"


text \<open>
  The names whose resolution body ran, in the order of the trace.
\<close>

fun resolved_names :: "event list \<Rightarrow> string list" where
  "resolved_names [] = []"
| "resolved_names (Resolved n # evs) = n # resolved_names evs"
| "resolved_names (Merged b # evs) = resolved_names evs"

text \<open>
  An acyclic base-reference relation: the names can be ranked so that every base that has
  a record ranks below the record declaring it. \<open>consistent_index\<close> is what
  \<^verbatim>\<open>load_engine_objects\<close> establishes at line 300: an entry is indexed under its own name.
\<close>

definition ranked :: "(string \<rightharpoonup> entry) \<Rightarrow> (string \<Rightarrow> nat) \<Rightarrow> bool" where
  "ranked idx rank \<longleftrightarrow>
     (\<forall>n e b. idx n = Some e \<longrightarrow> b \<in> set (get_base_names (data e)) \<longrightarrow> idx b \<noteq> None
        \<longrightarrow> rank b < rank n)"

definition consistent_index :: "(string \<rightharpoonup> entry) \<Rightarrow> bool" where
  "consistent_index idx \<longleftrightarrow> (\<forall>n e. idx n = Some e \<longrightarrow> name e = n)"

text \<open>
  \<open>fresh_work st st' ns\<close>: between \<open>st\<close> and \<open>st'\<close> the resolution bodies of exactly the
  names \<open>ns\<close> ran, each once, none of them for a name that \<open>st\<close> had cached, and these are
  the names the cache gained.
\<close>

definition fresh_work :: "rstate \<Rightarrow> rstate \<Rightarrow> string list \<Rightarrow> bool" where
  "fresh_work st st' ns \<longleftrightarrow>
     (\<exists>evs. trace st' = trace st @ evs \<and> resolved_names evs = ns) \<and> distinct ns \<and>
     set ns \<inter> dom (cache st) = {} \<and> dom (cache st') = dom (cache st) \<union> set ns"

text \<open>Two records that name each other as base.\<close>

definition cyc_a :: entry where
  "cyc_a = \<lparr>name = ''A'', kind = YStr ''class'', path = ''classes/A.yaml'',
     data = [(''name'', YStr ''A''), (''inherits'', YList [YStr ''B''])]\<rparr>"

definition cyc_b :: entry where
  "cyc_b = \<lparr>name = ''B'', kind = YStr ''class'', path = ''classes/B.yaml'',
     data = [(''name'', YStr ''B''), (''inherits'', YList [YStr ''A''])]\<rparr>"

definition cyc_index :: "string \<rightharpoonup> entry" where
  "cyc_index = [''A'' \<mapsto> cyc_a, ''B'' \<mapsto> cyc_b]"

text \<open>A diamond: C inherits from B and A, B inherits from A.\<close>

definition dia_a :: entry where
  "dia_a = \<lparr>name = ''A'', kind = YStr ''class'', path = ''classes/A.yaml'',
     data = [(''name'', YStr ''A''), (''summary'', YStr ''root'')]\<rparr>"

definition dia_b :: entry where
  "dia_b = \<lparr>name = ''B'', kind = YStr ''class'', path = ''classes/B.yaml'',
     data = [(''name'', YStr ''B''), (''inherits'', YList [YStr ''A''])]\<rparr>"

definition dia_c :: entry where
  "dia_c = \<lparr>name = ''C'', kind = YStr ''class'', path = ''classes/C.yaml'',
     data = [(''name'', YStr ''C''), (''inherits'', YList [YStr ''B'', YStr ''A''])]\<rparr>"

definition dia_index :: "string \<rightharpoonup> entry" where
  "dia_index = [''A'' \<mapsto> dia_a, ''B'' \<mapsto> dia_b, ''C'' \<mapsto> dia_c]"

definition dia_rank :: "string \<Rightarrow> nat" where
  "dia_rank n = (if n = ''C'' then 2 else if n = ''B'' then 1 else 0)"


section \<open>The navigation walker\<close>

text \<open>
  \<^verbatim>\<open>normalize_rel_path\<close> (lines 48-53) is \<^verbatim>\<open>str(Path(p).as_posix()).lstrip("./")\<close>. On a
  POSIX host \<^verbatim>\<open>Path\<close> splits at slashes and drops empty and \<^verbatim>\<open>.\<close> components;
  \<^verbatim>\<open>lstrip\<close> then removes every leading dot and slash, the root included.
\<close>

fun split_on :: "char \<Rightarrow> string \<Rightarrow> string list" where
  "split_on c [] = [[]]"
| "split_on c (x # xs) =
     (if x = c then [] # split_on c xs
      else (case split_on c xs of [] \<Rightarrow> [[x]] | w # ws \<Rightarrow> (x # w) # ws))"

fun join_with :: "char \<Rightarrow> string list \<Rightarrow> string" where
  "join_with c [] = []"
| "join_with c [w] = w"
| "join_with c (w # ws) = w @ c # join_with c ws"

definition normalize_rel_path :: "string \<Rightarrow> string" where
  "normalize_rel_path p =
     dropWhile (\<lambda>c. c = CHR ''.'' \<or> c = CHR ''/'')
       (join_with CHR ''/'' (filter (\<lambda>w. w \<noteq> [] \<and> w \<noteq> ''.'') (split_on CHR ''/'' p)))"

text \<open>
  \<^verbatim>\<open>iter_reference_objects\<close> (lines 364-411). The generator is modelled by the list of
  what it yields, in order. \<open>node_meta\<close> is the dict \<^verbatim>\<open>meta\<close> (lines 379-389).
\<close>

record reference =
  ref_path :: string
  breadcrumbs :: "ydict list"
  node :: yaml

definition node_meta :: "ydict \<Rightarrow> ydict" where
  "node_meta nd =
     (let title = py_or (py_or (dict_get nd ''title'') (dict_get nd ''label'')) (dict_get nd ''name'');
          node_id = py_or (dict_get nd ''id'') (dict_get nd ''key'');
          node_type = dict_get nd ''type''
      in (if truthy node_id then [(''id'', node_id)] else []) @
         (if truthy title then [(''title'', title)] else []) @
         (if truthy node_type then [(''type'', node_type)] else []))"

fun iter_reference_objects :: "yaml \<Rightarrow> ydict list \<Rightarrow> reference list" where
  "iter_reference_objects (YDict nd) crumbs =
     (let meta = node_meta nd;
          current_breadcrumbs = (if meta \<noteq> [] then crumbs @ [meta] else crumbs)
      in (case map_of nd ''path'' of
            Some (YStr p) \<Rightarrow>
              [\<lparr>ref_path = normalize_rel_path p, breadcrumbs = current_breadcrumbs, node = YDict nd\<rparr>]
          | _ \<Rightarrow> []) @
         concat (map (\<lambda>kv. if is_dict (snd kv) \<or> is_list (snd kv)
                            then iter_reference_objects (snd kv) current_breadcrumbs else []) nd))"
| "iter_reference_objects (YList xs) crumbs =
     concat (map (\<lambda>item. iter_reference_objects item crumbs) xs)"
| "iter_reference_objects v crumbs = []"

text \<open>
  The specification's reading of the trail, for comparison: \<open>reaches root trail target\<close>
  holds when the mapping \<open>target\<close> lies in the tree under \<open>root\<close> and \<open>trail\<close> lists, from
  \<open>root\<close> down to and including \<open>target\<close>, one entry for every mapping on the way that
  contributes one. \<open>has_breadcrumb_field\<close> is the specification's condition for
  contributing, the presence of one of the six fields; \<open>has_truthy_breadcrumb_field\<close>
  asks for one of them to hold a value that Python takes for true.
\<close>

definition crumb :: "ydict \<Rightarrow> ydict list" where
  "crumb nd = (if node_meta nd \<noteq> [] then [node_meta nd] else [])"

definition has_breadcrumb_field :: "ydict \<Rightarrow> bool" where
  "has_breadcrumb_field nd \<longleftrightarrow>
     list_ex (\<lambda>k. map_of nd k \<noteq> None) [''title'', ''label'', ''name'', ''id'', ''key'', ''type'']"

definition has_truthy_breadcrumb_field :: "ydict \<Rightarrow> bool" where
  "has_truthy_breadcrumb_field nd \<longleftrightarrow>
     list_ex (\<lambda>k. truthy (dict_get nd k)) [''title'', ''label'', ''name'', ''id'', ''key'', ''type'']"

inductive reaches :: "yaml \<Rightarrow> ydict list \<Rightarrow> ydict \<Rightarrow> bool" where
  here: "reaches (YDict nd) (crumb nd) nd"
| child: "(k, v) \<in> set nd \<Longrightarrow> reaches v trail target \<Longrightarrow> reaches (YDict nd) (crumb nd @ trail) target"
| item: "v \<in> set xs \<Longrightarrow> reaches v trail target \<Longrightarrow> reaches (YList xs) trail target"

definition nav_example :: yaml where
  "nav_example = YDict [(''title'', YStr ''Root''),
      (''children'', YList [YDict [(''path'', YStr ''classes/Foo.yaml'')],
                            YDict [(''path'', YStr ''classes/Bar.yaml''), (''title'', YStr ''Bar'')]])]"

definition own_reference :: "ydict \<Rightarrow> ydict list \<Rightarrow> reference list" where
  "own_reference nd trail =
     (case map_of nd ''path'' of
        Some (YStr p) \<Rightarrow> [\<lparr>ref_path = normalize_rel_path p, breadcrumbs = trail, node = YDict nd\<rparr>]
      | _ \<Rightarrow> [])"

text \<open>The navigation tree of the specification's example and the two references it yields.\<close>

definition ref_foo :: reference where
  "ref_foo = \<lparr>ref_path = ''classes/Foo.yaml'',
               breadcrumbs = [[(''title'', YStr ''Root'')]],
               node = YDict [(''path'', YStr ''classes/Foo.yaml'')]\<rparr>"

definition ref_bar :: reference where
  "ref_bar = \<lparr>ref_path = ''classes/Bar.yaml'',
               breadcrumbs = [[(''title'', YStr ''Root'')], [(''title'', YStr ''Bar'')]],
               node = YDict [(''path'', YStr ''classes/Bar.yaml''), (''title'', YStr ''Bar'')]\<rparr>"

text \<open>Two nodes whose only breadcrumb field holds a value that Python takes for false.\<close>

definition blank_title_node :: ydict where
  "blank_title_node = [(''title'', YStr []), (''path'', YStr ''a.yaml'')]"

definition zero_id_node :: ydict where
  "zero_id_node = [(''id'', YInt 0), (''path'', YStr ''b.yaml'')]"


section \<open>The same code on an explicit store\<close>

text \<open>
  Whether resolution writes to its inputs, and whether its results share structure with
  them, depends on object identity, which the value model above does not have. This
  section models the same source lines on a store. A Python value is an immutable scalar
  or a reference to a mutable container; the store is the list of all containers, a
  reference is an index into it, and creating a container appends to it. Every assignment
  to an element of a container is a write to the store at the container's address.

  \<^item> \<^verbatim>\<open>copy.deepcopy\<close> is modelled with its memo: a container that was already copied
    in the same call is not copied again, so shared and cyclic structure is handled as in
    Python.
  \<^item> The recursion depth is bounded by a fuel argument; \<open>None\<close> is a run that exceeds it.
  \<^item> A loop reads the container it iterates over when it starts; none of the loops
    writes to the container it iterates over.
  \<^item> \<^verbatim>\<open>named_items\<close>, \<^verbatim>\<open>seen\<close> and the list of base names are local and never stored
    anywhere; they are values. The cache maps names to references to the views.
  \<^item> A reference beyond the store reads as an empty list; Python has no such reference.
\<close>

type_synonym addr = nat

datatype pval = PNull | PBool bool | PInt int | PStr string | PRef addr

datatype cell = CList "pval list" | CDict "(string \<times> pval) list"

type_synonym heap = "cell list"

definition cell_at :: "heap \<Rightarrow> addr \<Rightarrow> cell" where
  "cell_at h a = (if a < length h then h ! a else CList [])"

fun cell_vals :: "cell \<Rightarrow> pval list" where
  "cell_vals (CList xs) = xs"
| "cell_vals (CDict d) = map snd d"

definition list_append :: "heap \<Rightarrow> addr \<Rightarrow> pval \<Rightarrow> heap" where
  "list_append h b y = h[b := (case cell_at h b of CList ys \<Rightarrow> CList (ys @ [y]) | c \<Rightarrow> c)]"

definition dict_set :: "heap \<Rightarrow> addr \<Rightarrow> string \<Rightarrow> pval \<Rightarrow> heap" where
  "dict_set h b k y = h[b := (case cell_at h b of CDict d \<Rightarrow> CDict (AList.update k y d) | c \<Rightarrow> c)]"

definition dict_del :: "heap \<Rightarrow> addr \<Rightarrow> string \<Rightarrow> heap" where
  "dict_del h b k = h[b := (case cell_at h b of CDict d \<Rightarrow> CDict (AList.delete k d) | c \<Rightarrow> c)]"

text \<open>\<^verbatim>\<open>copy.deepcopy(v, memo)\<close>; \<open>copy_list\<close> and \<open>copy_dict\<close> fill the new container \<open>b\<close>.\<close>

fun deepcopy :: "nat \<Rightarrow> heap \<Rightarrow> (addr \<rightharpoonup> addr) \<Rightarrow> pval \<Rightarrow> (heap \<times> (addr \<rightharpoonup> addr) \<times> pval) option"
  and copy_list :: "nat \<Rightarrow> heap \<Rightarrow> (addr \<rightharpoonup> addr) \<Rightarrow> addr \<Rightarrow> pval list \<Rightarrow> (heap \<times> (addr \<rightharpoonup> addr)) option"
  and copy_dict :: "nat \<Rightarrow> heap \<Rightarrow> (addr \<rightharpoonup> addr) \<Rightarrow> addr \<Rightarrow> (string \<times> pval) list
                      \<Rightarrow> (heap \<times> (addr \<rightharpoonup> addr)) option"
where
  "deepcopy 0 h memo v = None"
| "deepcopy (Suc n) h memo v =
     (case v of
        PRef a \<Rightarrow>
          (case memo a of
             Some b \<Rightarrow> Some (h, memo, PRef b)
           | None \<Rightarrow>
               (case cell_at h a of
                  CList xs \<Rightarrow>
                    (case copy_list n (h @ [CList []]) (memo(a \<mapsto> length h)) (length h) xs of
                       None \<Rightarrow> None
                     | Some (h', memo') \<Rightarrow> Some (h', memo', PRef (length h)))
                | CDict d \<Rightarrow>
                    (case copy_dict n (h @ [CDict []]) (memo(a \<mapsto> length h)) (length h) d of
                       None \<Rightarrow> None
                     | Some (h', memo') \<Rightarrow> Some (h', memo', PRef (length h)))))
      | _ \<Rightarrow> Some (h, memo, v))"
| "copy_list n h memo b [] = Some (h, memo)"
| "copy_list n h memo b (x # xs) =
     (case deepcopy n h memo x of
        None \<Rightarrow> None
      | Some (h', memo', y) \<Rightarrow> copy_list n (list_append h' b y) memo' b xs)"
| "copy_dict n h memo b [] = Some (h, memo)"
| "copy_dict n h memo b ((k, x) # d) =
     (case deepcopy n h memo x of
        None \<Rightarrow> None
      | Some (h', memo', y) \<Rightarrow> copy_dict n (dict_set h' b k y) memo' b d)"


text \<open>
  \<^verbatim>\<open>deep_merge\<close> (lines 94-171) on the store. The loops take the recursive call, with one
  unit of fuel less, as the parameter \<open>rec\<close>; \<open>merge_item_h\<close> and \<open>merge_member_h\<close> are the
  bodies of the loops over \<^verbatim>\<open>child.items()\<close> and over the child's members, \<open>res\<close> is the
  address of \<^verbatim>\<open>result\<close> and \<open>mg\<close> that of the list \<^verbatim>\<open>merged\<close>.
\<close>

fun is_dict_h :: "heap \<Rightarrow> pval \<Rightarrow> bool" where
  "is_dict_h h (PRef a) = (case cell_at h a of CDict d \<Rightarrow> True | _ \<Rightarrow> False)"
| "is_dict_h h v = False"

fun is_list_h :: "heap \<Rightarrow> pval \<Rightarrow> bool" where
  "is_list_h h (PRef a) = (case cell_at h a of CList xs \<Rightarrow> True | _ \<Rightarrow> False)"
| "is_list_h h v = False"

fun dict_of :: "heap \<Rightarrow> pval \<Rightarrow> (string \<times> pval) list" where
  "dict_of h (PRef a) = (case cell_at h a of CDict d \<Rightarrow> d | _ \<Rightarrow> [])"
| "dict_of h v = []"

fun list_of :: "heap \<Rightarrow> pval \<Rightarrow> pval list" where
  "list_of h (PRef a) = (case cell_at h a of CList xs \<Rightarrow> xs | _ \<Rightarrow> [])"
| "list_of h v = []"

fun hash_pkey :: "pval \<Rightarrow> error + key" where
  "hash_pkey PNull = Inr KNone"
| "hash_pkey (PBool b) = Inr (KNum (if b then 1 else 0))"
| "hash_pkey (PInt i) = Inr (KNum i)"
| "hash_pkey (PStr s) = Inr (KStr s)"
| "hash_pkey (PRef a) = Inl TypeError"

definition member_name_h :: "heap \<Rightarrow> pval \<Rightarrow> pval option" where
  "member_name_h h it = (if is_dict_h h it then map_of (dict_of h it) ''name'' else None)"

fun base_members_h ::
  "nat \<Rightarrow> heap \<Rightarrow> (key \<times> pval) list \<Rightarrow> addr \<Rightarrow> pval list
     \<Rightarrow> (error + heap \<times> (key \<times> pval) list) option"
where
  "base_members_h n h named mg [] = Some (Inr (h, named))"
| "base_members_h n h named mg (it # rest) =
     (case deepcopy n h Map.empty it of
        None \<Rightarrow> None
      | Some (h1, memo, it_copy) \<Rightarrow>
          (case member_name_h h1 it_copy of
             None \<Rightarrow> base_members_h n (list_append h1 mg it_copy) named mg rest
           | Some nv \<Rightarrow>
               (case hash_pkey nv of
                  Inl e \<Rightarrow> Some (Inl e)
                | Inr key \<Rightarrow> base_members_h n h1 (AList.update key it_copy named) mg rest)))"

definition append_all :: "heap \<Rightarrow> addr \<Rightarrow> pval list \<Rightarrow> heap" where
  "append_all h b xs = fold (\<lambda>x h'. list_append h' b x) xs h"

type_synonym merger = "heap \<Rightarrow> pval \<Rightarrow> pval \<Rightarrow> (error + heap \<times> pval) option"

definition store_copy :: "nat \<Rightarrow> heap \<Rightarrow> addr \<Rightarrow> string \<Rightarrow> pval \<Rightarrow> (error + heap) option" where
  "store_copy n h res k v =
     (case deepcopy n h Map.empty v of
        None \<Rightarrow> None
      | Some (h1, memo, c) \<Rightarrow> Some (Inr (dict_set h1 res k c)))"

definition merge_member_h ::
  "merger \<Rightarrow> nat \<Rightarrow> heap \<Rightarrow> (key \<times> pval) list \<Rightarrow> addr \<Rightarrow> pval
     \<Rightarrow> (error + heap \<times> (key \<times> pval) list) option"
where
  "merge_member_h rec n h named mg it =
     (case deepcopy n h Map.empty it of
        None \<Rightarrow> None
      | Some (h1, memo, it_copy) \<Rightarrow>
          (case member_name_h h1 it_copy of
             None \<Rightarrow> Some (Inr (list_append h1 mg it_copy, named))
           | Some nv \<Rightarrow>
               (case hash_pkey nv of
                  Inl e \<Rightarrow> Some (Inl e)
                | Inr key \<Rightarrow>
                    (case map_of named key of
                       Some prev \<Rightarrow>
                         (case rec h1 prev it_copy of
                            None \<Rightarrow> None
                          | Some (Inl e) \<Rightarrow> Some (Inl e)
                          | Some (Inr (h2, m)) \<Rightarrow> Some (Inr (h2, AList.update key m named)))
                     | None \<Rightarrow> Some (Inr (h1, AList.update key it_copy named))))))"

fun merge_members_h ::
  "merger \<Rightarrow> nat \<Rightarrow> heap \<Rightarrow> (key \<times> pval) list \<Rightarrow> addr \<Rightarrow> pval list
     \<Rightarrow> (error + heap \<times> (key \<times> pval) list) option"
where
  "merge_members_h rec n h named mg [] = Some (Inr (h, named))"
| "merge_members_h rec n h named mg (it # rest) =
     (case merge_member_h rec n h named mg it of
        None \<Rightarrow> None
      | Some (Inl e) \<Rightarrow> Some (Inl e)
      | Some (Inr (h1, named1)) \<Rightarrow> merge_members_h rec n h1 named1 mg rest)"

definition merge_item_h ::
  "merger \<Rightarrow> nat \<Rightarrow> heap \<Rightarrow> addr \<Rightarrow> string \<Rightarrow> pval \<Rightarrow> (error + heap) option"
where
  "merge_item_h rec n h res k child_val =
     (case map_of (dict_of h (PRef res)) k of
        None \<Rightarrow> store_copy n h res k child_val
      | Some base_val \<Rightarrow>
          if is_dict_h h base_val \<and> is_dict_h h child_val then
            (case rec h base_val child_val of
               None \<Rightarrow> None
             | Some (Inl e) \<Rightarrow> Some (Inl e)
             | Some (Inr (h1, v)) \<Rightarrow> Some (Inr (dict_set h1 res k v)))
          else if is_list_h h base_val \<and> is_list_h h child_val \<and> k \<in> MERGE_LIST_KEYS then
            (case base_members_h n (h @ [CList []]) [] (length h) (list_of h base_val) of
               None \<Rightarrow> None
             | Some (Inl e) \<Rightarrow> Some (Inl e)
             | Some (Inr (h1, named0)) \<Rightarrow>
                 (case merge_members_h rec n h1 named0 (length h) (list_of h1 child_val) of
                    None \<Rightarrow> None
                  | Some (Inl e) \<Rightarrow> Some (Inl e)
                  | Some (Inr (h2, named)) \<Rightarrow>
                      (case sorted_keys (map fst named) of
                         Inl e \<Rightarrow> Some (Inl e)
                       | Inr ns \<Rightarrow>
                           Some (Inr (dict_set
                             (append_all h2 (length h) (map (\<lambda>key. the (map_of named key)) ns))
                             res k (PRef (length h)))))))
          else store_copy n h res k child_val)"

fun merge_items_h ::
  "merger \<Rightarrow> nat \<Rightarrow> heap \<Rightarrow> addr \<Rightarrow> (string \<times> pval) list \<Rightarrow> (error + heap \<times> pval) option"
where
  "merge_items_h rec n h res [] = Some (Inr (h, PRef res))"
| "merge_items_h rec n h res ((k, child_val) # rest) =
     (case merge_item_h rec n h res k child_val of
        None \<Rightarrow> None
      | Some (Inl e) \<Rightarrow> Some (Inl e)
      | Some (Inr h1) \<Rightarrow> merge_items_h rec n h1 res rest)"

definition deep_merge_body :: "merger \<Rightarrow> nat \<Rightarrow> merger" where
  "deep_merge_body rec n h base child =
     (if \<not> is_dict_h h base \<or> \<not> is_dict_h h child then
        (case deepcopy n h Map.empty child of
           None \<Rightarrow> None
         | Some (h1, memo, c) \<Rightarrow> Some (Inr (h1, c)))
      else
        (case deepcopy n h Map.empty base of
           None \<Rightarrow> None
         | Some (h1, memo, result) \<Rightarrow>
             (case result of
                PRef res \<Rightarrow> merge_items_h rec n h1 res (dict_of h1 child)
              | _ \<Rightarrow> Some (Inl TypeError))))"

primrec deep_merge_h :: "nat \<Rightarrow> merger" where
  "deep_merge_h 0 = (\<lambda>h base child. None)"
| "deep_merge_h (Suc n) = deep_merge_body (deep_merge_h n) n"

text \<open>
  \<^verbatim>\<open>build_merged_for_entry\<close> (lines 311-358) on the store. An entry holds a reference to
  its body. Reading \<^verbatim>\<open>_ancestors\<close> from a cached view that is not a mapping is an
  \<^verbatim>\<open>AttributeError\<close>.
\<close>

record hentry =
  hname :: string
  hdata :: pval

type_synonym hstate = "heap \<times> (string \<rightharpoonup> pval)"

type_synonym builder =
  "(string \<rightharpoonup> hentry) \<Rightarrow> hentry \<Rightarrow> hstate \<Rightarrow> (error + hstate \<times> pval) option"

fun base_field_names_h :: "heap \<Rightarrow> pval \<Rightarrow> string list" where
  "base_field_names_h h (PStr s) = [s]"
| "base_field_names_h h (PRef a) =
     (case cell_at h a of
        CList xs \<Rightarrow> concat (map (\<lambda>v. case v of PStr s \<Rightarrow> [s] | _ \<Rightarrow> []) xs)
      | CDict d \<Rightarrow> [])"
| "base_field_names_h h v = []"

definition get_base_names_h :: "heap \<Rightarrow> pval \<Rightarrow> string list" where
  "get_base_names_h h obj =
     fold (\<lambda>k names. case map_of (dict_of h obj) k of
                       None \<Rightarrow> names
                     | Some val \<Rightarrow> names @ base_field_names_h h val)
          BASE_KEYS []"

fun dedupe_h :: "key set \<Rightarrow> pval list \<Rightarrow> pval list \<Rightarrow> error + pval list" where
  "dedupe_h seen deduped [] = Inr deduped"
| "dedupe_h seen deduped (a # rest) =
     (case hash_pkey a of
        Inl e \<Rightarrow> Inl e
      | Inr k \<Rightarrow> if k \<in> seen then dedupe_h seen deduped rest
                 else dedupe_h (insert k seen) (deduped @ [a]) rest)"

fun resolve_bases_h ::
  "(hentry \<Rightarrow> hstate \<Rightarrow> (error + hstate \<times> pval) option) \<Rightarrow> nat \<Rightarrow> (string \<rightharpoonup> hentry)
     \<Rightarrow> string list \<Rightarrow> pval \<Rightarrow> pval list \<Rightarrow> hstate
     \<Rightarrow> (error + hstate \<times> pval \<times> pval list) option"
where
  "resolve_bases_h rec n name_index [] merged ancestors st = Some (Inr (st, merged, ancestors))"
| "resolve_bases_h rec n name_index (base_name # rest) merged ancestors st =
     (case name_index base_name of
        None \<Rightarrow> resolve_bases_h rec n name_index rest merged ancestors st
      | Some base_entry \<Rightarrow>
          (case rec base_entry st of
             None \<Rightarrow> None
           | Some (Inl e) \<Rightarrow> Some (Inl e)
           | Some (Inr ((h1, cache1), base_merged)) \<Rightarrow>
               (case deep_merge_h n h1 base_merged merged of
                  None \<Rightarrow> None
                | Some (Inl e) \<Rightarrow> Some (Inl e)
                | Some (Inr (h2, merged')) \<Rightarrow>
                    if is_dict_h h2 base_merged then
                      resolve_bases_h rec n name_index rest merged'
                        (ancestors @ [PStr base_name] @
                           (case map_of (dict_of h2 base_merged) ''_ancestors'' of
                              None \<Rightarrow> []
                            | Some v \<Rightarrow> if is_list_h h2 v then list_of h2 v else []))
                        (h2, cache1)
                    else Some (Inl AttributeError))))"

definition build_body ::
  "(hentry \<Rightarrow> hstate \<Rightarrow> (error + hstate \<times> pval) option) \<Rightarrow> nat \<Rightarrow> (string \<rightharpoonup> hentry)
     \<Rightarrow> hentry \<Rightarrow> hstate \<Rightarrow> (error + hstate \<times> pval) option"
where
  "build_body rec n name_index ent st =
     (case snd st (hname ent) of
        Some view \<Rightarrow> Some (Inr (st, view))
      | None \<Rightarrow>
          (case deepcopy n (fst st) Map.empty (hdata ent) of
             None \<Rightarrow> None
           | Some (h1, memo, merged0) \<Rightarrow>
               (case resolve_bases_h rec n name_index (get_base_names_h h1 (hdata ent)) merged0 []
                       (h1, snd st) of
                  None \<Rightarrow> None
                | Some (Inl e) \<Rightarrow> Some (Inl e)
                | Some (Inr ((h2, cache2), merged, ancestors)) \<Rightarrow>
                    (case dedupe_h {} [] ancestors of
                       Inl e \<Rightarrow> Some (Inl e)
                     | Inr deduped \<Rightarrow>
                         (case merged of
                            PRef m \<Rightarrow>
                              if is_dict_h h2 merged then
                                (let h3 = dict_set (h2 @ [CList deduped]) m ''_ancestors''
                                            (PRef (length h2))
                                 in case map_of (dict_of h3 (hdata ent)) ''descendants'' of
                                      Some d \<Rightarrow>
                                        (case deepcopy n h3 Map.empty d of
                                           None \<Rightarrow> None
                                         | Some (h4, memo4, dcopy) \<Rightarrow>
                                             Some (Inr ((dict_set h4 m ''descendants'' dcopy,
                                                         cache2(hname ent \<mapsto> merged)), merged)))
                                    | None \<Rightarrow>
                                        Some (Inr ((dict_del h3 m ''descendants'',
                                                    cache2(hname ent \<mapsto> merged)), merged)))
                              else Some (Inl TypeError)
                          | _ \<Rightarrow> Some (Inl TypeError))))))"

primrec build_merged_for_entry_h ::
  "nat \<Rightarrow> (string \<rightharpoonup> hentry) \<Rightarrow> hentry \<Rightarrow> hstate \<Rightarrow> (error + hstate \<times> pval) option"
where
  "build_merged_for_entry_h 0 name_index = (\<lambda>ent st. None)"
| "build_merged_for_entry_h (Suc n) name_index =
     build_body (build_merged_for_entry_h n name_index) n name_index"

text \<open>
  The region argument. \<open>fresh n v\<close>: the value \<open>v\<close> is a scalar or refers to an address
  from \<open>n\<close> on. \<open>region_ok n h\<close>: the containers from \<open>n\<close> on hold only such values.
  \<open>grows n h h'\<close>: from \<open>h\<close> to \<open>h'\<close> the store only grew, nothing below \<open>n\<close> was written, and
  the region from \<open>n\<close> on stayed closed. \<open>reach h v a\<close>: the container at \<open>a\<close> is part of the
  structure of \<open>v\<close>.
\<close>

definition fresh :: "nat \<Rightarrow> pval \<Rightarrow> bool" where
  "fresh n v = (case v of PRef a \<Rightarrow> n \<le> a | _ \<Rightarrow> True)"

definition region_ok :: "nat \<Rightarrow> heap \<Rightarrow> bool" where
  "region_ok n h \<longleftrightarrow> (\<forall>a. n \<le> a \<longrightarrow> list_all (fresh n) (cell_vals (cell_at h a)))"

definition grows :: "nat \<Rightarrow> heap \<Rightarrow> heap \<Rightarrow> bool" where
  "grows n h h' \<longleftrightarrow>
     length h \<le> length h' \<and> (\<forall>a < n. cell_at h' a = cell_at h a) \<and>
     (region_ok n h \<longrightarrow> region_ok n h')"

inductive reach :: "heap \<Rightarrow> pval \<Rightarrow> addr \<Rightarrow> bool" where
  here: "reach h (PRef a) a"
| step: "v \<in> set (cell_vals (cell_at h a)) \<Longrightarrow> reach h v b \<Longrightarrow> reach h (PRef a) b"

definition memo_ok :: "nat \<Rightarrow> (addr \<rightharpoonup> addr) \<Rightarrow> bool" where
  "memo_ok n memo \<longleftrightarrow> (\<forall>a b. memo a = Some b \<longrightarrow> n \<le> b)"

definition named_ok :: "nat \<Rightarrow> (key \<times> pval) list \<Rightarrow> bool" where
  "named_ok n named \<longleftrightarrow> list_all (\<lambda>kv. fresh n (snd kv)) named"

definition merger_safe :: "nat \<Rightarrow> merger \<Rightarrow> bool" where
  "merger_safe n rec \<longleftrightarrow>
     (\<forall>h base child h' r. rec h base child = Some (Inr (h', r)) \<longrightarrow> n \<le> length h \<longrightarrow>
        grows n h h' \<and> fresh n r)"

definition cache_ok :: "nat \<Rightarrow> (string \<rightharpoonup> pval) \<Rightarrow> bool" where
  "cache_ok n views \<longleftrightarrow> (\<forall>k v. views k = Some v \<longrightarrow> fresh n v)"

definition builder_safe ::
  "nat \<Rightarrow> (hentry \<Rightarrow> hstate \<Rightarrow> (error + hstate \<times> pval) option) \<Rightarrow> bool" where
  "builder_safe n rec \<longleftrightarrow>
     (\<forall>e h views h' cache' v. rec e (h, views) = Some (Inr ((h', cache'), v)) \<longrightarrow> n \<le> length h \<longrightarrow>
        grows n h h' \<and> (cache_ok n views \<longrightarrow> cache_ok n cache' \<and> fresh n v))"

text \<open>A store with two records, Base and Leaf, and the index over them.\<close>

definition hrec :: heap where
  "hrec = [CDict [(''name'', PStr ''Base''), (''descendants'', PRef 1), (''members'', PRef 2)],
           CList [PStr ''Leaf''],
           CList [PRef 3],
           CDict [(''name'', PStr ''X''), (''desc'', PStr ''b'')],
           CDict [(''name'', PStr ''Leaf''), (''inherits'', PRef 5), (''members'', PRef 6)],
           CList [PStr ''Base''],
           CList [PRef 7],
           CDict [(''name'', PStr ''X''), (''desc'', PStr ''c'')]]"

definition hidx :: "string \<rightharpoonup> hentry" where
  "hidx = [''Base'' \<mapsto> \<lparr>hname = ''Base'', hdata = PRef 0\<rparr>,
           ''Leaf'' \<mapsto> \<lparr>hname = ''Leaf'', hdata = PRef 4\<rparr>]"

definition leaf_entry :: hentry where
  "leaf_entry = \<lparr>hname = ''Leaf'', hdata = PRef 4\<rparr>"


section \<open>Base references: results\<close>

lemma fold_base_fields:
  "fold (\<lambda>k names. case map_of obj k of
                     None \<Rightarrow> names
                   | Some val \<Rightarrow> names @ base_field_names val) ks acc
   = acc @ concat (map (\<lambda>k. case map_of obj k of
                              None \<Rightarrow> []
                            | Some val \<Rightarrow> base_field_names val) ks)"
  by (induction ks arbitrary: acc) (auto split: option.splits)

text \<open>
  Claim C4, as the code has it: \<^verbatim>\<open>get_base_names\<close> has no early exit. It returns the
  names of every base-reference field that is present, concatenated in the fixed order
  inherits, extends, superclass, superclasses, bases. A string contributes itself; a
  sequence, whatever it holds, contributes exactly its elements that are strings, in
  order, the others being skipped; a null, a boolean, a number or a mapping contributes
  nothing.
\<close>

theorem get_base_names_all_fields:
  "get_base_names obj =
     concat (map (\<lambda>k. case map_of obj k of
                        None \<Rightarrow> []
                      | Some val \<Rightarrow> base_field_names val)
                 [''inherits'', ''extends'', ''superclass'', ''superclasses'', ''bases''])
   \<and> base_field_names (YStr s) = [s]
   \<and> base_field_names (YList xs) = map the_str (filter is_str xs)
   \<and> base_field_names YNull = []
   \<and> base_field_names (YBool b) = []
   \<and> base_field_names (YInt i) = []
   \<and> base_field_names (YDict d) = []"
proof -
  have "concat (map (\<lambda>v. case v of YStr s \<Rightarrow> [s] | _ \<Rightarrow> []) xs) = map the_str (filter is_str xs)"
    by (induction xs) (auto split: yaml.splits)
  then show ?thesis
    unfolding get_base_names_def BASE_KEYS_def fold_base_fields by simp
qed

text \<open>
  Claim C4 as stated fails: a body declaring both \<^verbatim>\<open>inherits: A\<close> and \<^verbatim>\<open>extends: B\<close>
  yields both names, not only the one of the first field present.
\<close>

theorem get_base_names_not_first_wins:
  "get_base_names two_base_fields = [''A'', ''B'']
   \<and> first_present_names two_base_fields BASE_KEYS = [''A'']
   \<and> get_base_names two_base_fields \<noteq> first_present_names two_base_fields BASE_KEYS"
  by (simp add: get_base_names_def two_base_fields_def BASE_KEYS_def)

section \<open>Structural merge: the child wins\<close>

lemma merge_items_frame:
  "merge_items result child = Inr r \<Longrightarrow> k \<notin> fst ` set child \<Longrightarrow> map_of r k = map_of result k"
proof (induction child arbitrary: result)
  case Nil
  then show ?case by simp
next
  case (Cons kv rest)
  obtain k' v where kv: "kv = (k', v)" by (cases kv)
  with Cons.prems have ne: "k' \<noteq> k" and rest: "k \<notin> fst ` set rest" by auto
  from Cons.prems(1) kv obtain result' where
    step: "merge_items result' rest = Inr r" and upd: "\<exists>w. result' = AList.update k' w result"
    by (auto split: option.splits sum.splits if_splits prod.splits)
  from Cons.IH[OF step rest] upd ne show ?case
    by (auto simp: update_conv')
qed

lemma merge_items_distinct:
  "merge_items result child = Inr r \<Longrightarrow> distinct (map fst result) \<Longrightarrow> distinct (map fst r)"
proof (induction child arbitrary: result)
  case Nil
  then show ?case by simp
next
  case (Cons kv rest)
  obtain k' v where kv: "kv = (k', v)" by (cases kv)
  from Cons.prems(1) kv obtain result' where
    step: "merge_items result' rest = Inr r" and upd: "\<exists>w. result' = AList.update k' w result"
    by (auto split: option.splits sum.splits if_splits prod.splits)
  from upd Cons.prems(2) have "distinct (map fst result')"
    by (auto simp: distinct_update)
  from Cons.IH[OF step this] show ?case .
qed

lemma merge_items_child_wins:
  assumes "merge_items result child = Inr r"
    and "distinct (map fst child)"
    and "map_of child k = Some v"
    and "\<not> is_dict v"
    and "is_list v \<longrightarrow> k \<notin> MERGE_LIST_KEYS"
  shows "map_of r k = Some v"
  using assms
proof (induction child arbitrary: result)
  case Nil
  then show ?case by simp
next
  case (Cons kv rest)
  obtain k' v' where kv: "kv = (k', v')" by (cases kv)
  show ?case
  proof (cases "k' = k")
    case True
    with Cons.prems(3) kv have v': "v' = v" by simp
    from Cons.prems(2) kv True have notin: "k \<notin> fst ` set rest" by auto
    from Cons.prems(1,4,5) kv True v' have step: "merge_items (AList.update k v result) rest = Inr r"
      by (auto split: option.splits if_splits)
    from merge_items_frame[OF step notin] show ?thesis by (simp add: update_conv')
  next
    case False
    from Cons.prems(1) kv obtain result' where
      step: "merge_items result' rest = Inr r"
      by (auto split: option.splits sum.splits if_splits prod.splits)
    from Cons.prems(2,3) kv False have "distinct (map fst rest)" "map_of rest k = Some v" by auto
    from Cons.IH[OF step this Cons.prems(4,5)] show ?thesis .
  qed
qed

lemma deep_merge_dicts:
  "deep_merge (YDict b) (YDict c) = Inr r \<Longrightarrow> \<exists>d. r = YDict d \<and> merge_items b c = Inr d"
  by (auto split: sum.splits)

lemma merge_items_child_field:
  assumes "merge_items result child = Inr r"
    and "distinct (map fst child)"
    and "map_of child f = Some v"
    and "\<not> merged_field result f v"
  shows "map_of r f = Some v"
  using assms
proof (induction child arbitrary: result)
  case Nil
  then show ?case by simp
next
  case (Cons kv rest)
  obtain k' v' where kv: "kv = (k', v')" by (cases kv)
  show ?case
  proof (cases "k' = f")
    case True
    with Cons.prems(3) kv have v': "v' = v" by simp
    from Cons.prems(2) kv True have notin: "f \<notin> fst ` set rest" by auto
    from Cons.prems(1,4) kv True v' have step: "merge_items (AList.update f v result) rest = Inr r"
      by (auto simp: merged_field_def dict_get_def split: option.splits if_splits)
    from merge_items_frame[OF step notin] show ?thesis by (simp add: update_conv')
  next
    case False
    from Cons.prems(1) kv obtain result' where
      step: "merge_items result' rest = Inr r" and upd: "\<exists>w. result' = AList.update k' w result"
      by (auto split: option.splits sum.splits if_splits prod.splits)
    from upd False have "map_of result' f = map_of result f" by (auto simp: update_conv')
    with Cons.prems(4) have nm: "\<not> merged_field result' f v"
      by (simp add: merged_field_def dict_get_def)
    from Cons.prems(2,3) kv False have "distinct (map fst rest)" "map_of rest f = Some v" by auto
    from Cons.IH[OF step this nm] show ?thesis .
  qed
qed


section \<open>Structural merge: member groups\<close>

lemma update_fresh: "k \<notin> fst ` set al \<Longrightarrow> AList.update k v al = al @ [(k, v)]"
  by (induction al) auto

lemma hash_key_name:
  "member_name it = Some nv \<Longrightarrow> name_str it = Some s \<Longrightarrow> hash_key nv = Inr (KStr s)"
  by (cases nv) (auto simp: name_str_def)

lemma base_members_spec:
  "base_members named merged xs = Inr (named', merged') \<Longrightarrow> string_named xs \<Longrightarrow>
   distinct (member_names xs) \<Longrightarrow> KStr ` set (member_names xs) \<inter> fst ` set named = {} \<Longrightarrow>
   merged' = merged @ unnamed xs \<and>
   named' = named @ map (\<lambda>it. (KStr (the (name_str it)), it)) (named_members xs)"
proof (induction xs arbitrary: named merged)
  case Nil
  then show ?case by (simp add: unnamed_def named_members_def)
next
  case (Cons it rest)
  have sr: "string_named rest" using Cons.prems(2) by (simp add: string_named_def)
  show ?case
  proof (cases "member_name it")
    case None
    with Cons.prems have
      "base_members named (merged @ [it]) rest = Inr (named', merged')"
      "distinct (member_names rest)" "KStr ` set (member_names rest) \<inter> fst ` set named = {}"
      by (auto simp: member_names_def named_members_def)
    from Cons.IH[OF this(1) sr this(2,3)] None show ?thesis
      by (simp add: unnamed_def named_members_def)
  next
    case (Some nv)
    with Cons.prems(2) obtain s where s: "name_str it = Some s"
      by (auto simp: string_named_def)
    from hash_key_name[OF Some s] have h: "hash_key nv = Inr (KStr s)" .
    from Some s have mn: "member_names (it # rest) = s # member_names rest"
      by (simp add: member_names_def named_members_def)
    from Cons.prems(4) mn have fresh: "KStr s \<notin> fst ` set named" by auto
    from Cons.prems(1) Some h fresh
    have step: "base_members (named @ [(KStr s, it)]) merged rest = Inr (named', merged')"
      by (simp add: update_fresh)
    from Cons.prems(3,4) mn have
      "distinct (member_names rest)"
      "KStr ` set (member_names rest) \<inter> fst ` set (named @ [(KStr s, it)]) = {}"
      by auto
    from Cons.IH[OF step sr this] Some s show ?thesis
      by (simp add: unnamed_def named_members_def)
  qed
qed

lemma merge_members_spec:
  "merge_members named merged xs = Inr (named', merged') \<Longrightarrow> string_named xs \<Longrightarrow>
   distinct (member_names xs) \<Longrightarrow>
   merged' = merged @ unnamed xs \<and>
   fst ` set named' = fst ` set named \<union> KStr ` set (member_names xs) \<and>
   (distinct (map fst named) \<longrightarrow> distinct (map fst named')) \<and>
   (\<forall>key. key \<notin> KStr ` set (member_names xs) \<longrightarrow> map_of named' key = map_of named key) \<and>
   (\<forall>c \<in> set xs. \<forall>n. name_str c = Some n \<longrightarrow>
      (case map_of named (KStr n) of
         None \<Rightarrow> map_of named' (KStr n) = Some c
       | Some p \<Rightarrow> \<exists>m. deep_merge p c = Inr m \<and> map_of named' (KStr n) = Some m))"
proof (induction xs arbitrary: named merged)
  case Nil
  then show ?case by (auto simp: unnamed_def named_members_def member_names_def)
next
  case (Cons it rest)
  have sr: "string_named rest" using Cons.prems(2) by (simp add: string_named_def)
  show ?case
  proof (cases "member_name it")
    case None
    then have ns: "name_str it = None" by (simp add: name_str_def)
    from None Cons.prems have
      step: "merge_members named (merged @ [it]) rest = Inr (named', merged')"
      and d: "distinct (member_names rest)" and mn: "member_names (it # rest) = member_names rest"
      by (auto simp: member_names_def named_members_def)
    from Cons.IH[OF step sr d] None ns mn show ?thesis
      by (auto simp: unnamed_def)
  next
    case (Some nv)
    with Cons.prems(2) obtain s where s: "name_str it = Some s"
      by (auto simp: string_named_def)
    from hash_key_name[OF Some s] have h: "hash_key nv = Inr (KStr s)" .
    from Some s have mn: "member_names (it # rest) = s # member_names rest"
      by (simp add: member_names_def named_members_def)
    with Cons.prems(3) have d: "distinct (member_names rest)" and sn: "s \<notin> set (member_names rest)"
      by auto
    have un: "unnamed (it # rest) = unnamed rest" using Some by (simp add: unnamed_def)
    from Cons.prems(1) Some h obtain w where
      step: "merge_members (AList.update (KStr s) w named) merged rest = Inr (named', merged')"
      and w: "case map_of named (KStr s) of None \<Rightarrow> w = it
              | Some p \<Rightarrow> deep_merge p it = Inr w"
      by (auto split: option.splits sum.splits)
    note IH = Cons.IH[OF step sr d]
    have in_rest: "name_str c = Some n \<Longrightarrow> c \<in> set rest \<Longrightarrow> n \<in> set (member_names rest)" for c n
      by (force simp: member_names_def named_members_def name_str_def split: option.splits)
    have "merged' = merged @ unnamed (it # rest)" using IH un by simp
    moreover have "fst ` set named' = fst ` set named \<union> KStr ` set (member_names (it # rest))"
      using IH mn by (auto simp: dom_update)
    moreover have "distinct (map fst named) \<longrightarrow> distinct (map fst named')"
      using IH by (auto simp: distinct_update)
    moreover have "\<forall>key. key \<notin> KStr ` set (member_names (it # rest)) \<longrightarrow>
                     map_of named' key = map_of named key"
      using IH mn by (auto simp: update_conv')
    moreover have "\<forall>c \<in> set (it # rest). \<forall>n. name_str c = Some n \<longrightarrow>
      (case map_of named (KStr n) of
         None \<Rightarrow> map_of named' (KStr n) = Some c
       | Some p \<Rightarrow> \<exists>m. deep_merge p c = Inr m \<and> map_of named' (KStr n) = Some m)"
    proof (intro ballI allI impI)
      fix c n assume c: "c \<in> set (it # rest)" and n: "name_str c = Some n"
      show "case map_of named (KStr n) of
         None \<Rightarrow> map_of named' (KStr n) = Some c
       | Some p \<Rightarrow> \<exists>m. deep_merge p c = Inr m \<and> map_of named' (KStr n) = Some m"
      proof (cases "c \<in> set rest")
        case True
        from in_rest[OF n True] have nr: "n \<in> set (member_names rest)" .
        with sn have "n \<noteq> s" by auto
        then have eq: "map_of (AList.update (KStr s) w named) (KStr n) = map_of named (KStr n)"
          by (simp add: update_conv')
        from IH have "\<forall>c \<in> set rest. \<forall>n. name_str c = Some n \<longrightarrow>
          (case map_of (AList.update (KStr s) w named) (KStr n) of
             None \<Rightarrow> map_of named' (KStr n) = Some c
           | Some p \<Rightarrow> \<exists>m. deep_merge p c = Inr m \<and> map_of named' (KStr n) = Some m)"
          by blast
        with True n have "case map_of (AList.update (KStr s) w named) (KStr n) of
             None \<Rightarrow> map_of named' (KStr n) = Some c
           | Some p \<Rightarrow> \<exists>m. deep_merge p c = Inr m \<and> map_of named' (KStr n) = Some m"
          by blast
        then show ?thesis unfolding eq .
      next
        case False
        with c have ci: "c = it" by simp
        with n s have ns: "n = s" by simp
        from sn have "KStr s \<notin> KStr ` set (member_names rest)" by auto
        with IH have "map_of named' (KStr s) = map_of (AList.update (KStr s) w named) (KStr s)"
          by blast
        then have "map_of named' (KStr s) = Some w" by (simp add: update_conv')
        with w ci ns show ?thesis
          by (cases "map_of named (KStr s)") (simp_all del: deep_merge.simps)
      qed
    qed
    ultimately show ?thesis by blast
  qed
qed

lemma sorted_keys_strings: "sorted_keys (map KStr ss) = Inr (map KStr (sort ss))"
proof (cases "length ss \<le> 1")
  case True
  then have "ss = [] \<or> (\<exists>x. ss = [x])"
    by (cases ss) (auto simp: length_Suc_conv)
  then show ?thesis by (auto simp: sorted_keys_def)
next
  case False
  have "map (\<lambda>k. the (key_str k)) (map KStr ss) = ss" by (induction ss) auto
  moreover have "list_all (\<lambda>k. key_str k \<noteq> None) (map KStr ss)" by (induction ss) auto
  ultimately show ?thesis using False by (simp add: sorted_keys_def)
qed

lemma merge_items_member_group:
  assumes "merge_items result child = Inr r" and "distinct (map fst child)"
    and "map_of child k = Some (YList cl)" and "map_of result k = Some (YList bl)"
    and "k \<in> MERGE_LIST_KEYS"
  shows "\<exists>named0 merged0 named merged ns.
           base_members [] [] bl = Inr (named0, merged0) \<and>
           merge_members named0 merged0 cl = Inr (named, merged) \<and>
           sorted_keys (map fst named) = Inr ns \<and>
           map_of r k = Some (YList (merged @ map (\<lambda>n. the (map_of named n)) ns))"
  using assms(1,2,3,4)
proof (induction child arbitrary: result)
  case Nil
  then show ?case by simp
next
  case (Cons kv rest)
  obtain k' v' where kv: "kv = (k', v')" by (cases kv)
  show ?case
  proof (cases "k' = k")
    case True
    with Cons.prems(3) kv have v': "v' = YList cl" by simp
    from Cons.prems(2) kv True have notin: "k \<notin> fst ` set rest" by auto
    from Cons.prems(1,4) kv True v' assms(5) obtain named0 merged0 named merged ns where
      parts: "base_members [] [] bl = Inr (named0, merged0)"
             "merge_members named0 merged0 cl = Inr (named, merged)"
             "sorted_keys (map fst named) = Inr ns"
      and step: "merge_items (AList.update k (YList (merged @ map (\<lambda>n. the (map_of named n)) ns)) result)
                   rest = Inr r"
      by (auto split: sum.splits prod.splits)
    from merge_items_frame[OF step notin]
    have "map_of r k = Some (YList (merged @ map (\<lambda>n. the (map_of named n)) ns))"
      by (simp add: update_conv')
    with parts show ?thesis by blast
  next
    case False
    from Cons.prems(1) kv obtain result' where
      step: "merge_items result' rest = Inr r" and upd: "\<exists>w. result' = AList.update k' w result"
      by (auto split: option.splits sum.splits if_splits prod.splits)
    from upd False Cons.prems(4) have r': "map_of result' k = Some (YList bl)"
      by (auto simp: update_conv')
    from Cons.prems(2,3) kv False have "distinct (map fst rest)" "map_of rest k = Some (YList cl)"
      by auto
    from Cons.IH[OF step this r'] show ?thesis .
  qed
qed

lemma name_in_member_names:
  "c \<in> set xs \<Longrightarrow> name_str c = Some n \<Longrightarrow> n \<in> set (member_names xs)"
  by (force simp: member_names_def named_members_def name_str_def split: option.splits)

lemma member_names_obtain:
  "n \<in> set (member_names xs) \<Longrightarrow> string_named xs \<Longrightarrow> \<exists>c \<in> set xs. name_str c = Some n"
  by (fastforce simp: member_names_def named_members_def string_named_def list_all_iff)

lemma merged_member_name:
  assumes "deep_merge b c = Inr m" and "name_str c = Some n"
    and "distinct (map fst (the_dict c))"
  shows "name_str m = Some n"
proof (cases "is_dict b")
  case False
  with assms show ?thesis by simp
next
  case True
  from assms(2) obtain cd where cd: "c = YDict cd" and nm: "map_of cd ''name'' = Some (YStr n)"
    by (cases c) (auto simp: name_str_def split: option.splits yaml.splits)
  from True obtain bd where bd: "b = YDict bd" by (cases b) auto
  from assms(1) cd bd obtain d where d: "m = YDict d" "merge_items bd cd = Inr d"
    using deep_merge_dicts by blast
  from assms(3) cd have "distinct (map fst cd)" by simp
  from merge_items_child_wins[OF d(2) this nm] have "map_of d ''name'' = Some (YStr n)" by simp
  with d(1) show ?thesis by (simp add: name_str_def)
qed

lemma sort_distinct_set:
  "distinct xs \<Longrightarrow> set xs = set ys \<Longrightarrow> sort xs = sort (remdups ys)"
  by (intro sorted_distinct_set_unique) auto

lemma keys_are_strings:
  "fst ` set al \<subseteq> range KStr \<Longrightarrow> map fst al = map KStr (map (\<lambda>k. the (key_str k)) (map fst al))"
  by (induction al) auto

lemma member_group_merge_result:
  assumes mk: "k \<in> MERGE_LIST_KEYS"
    and bk: "map_of base k = Some (YList bl)" and ck: "map_of child k = Some (YList cl)"
    and dc: "distinct (map fst child)"
    and ditems: "\<forall>c \<in> set cl. distinct (map fst (the_dict c))"
    and sb: "string_named bl" and sc: "string_named cl"
    and db: "distinct (member_names bl)" and dcn: "distinct (member_names cl)"
    and run: "deep_merge (YDict base) (YDict child) = Inr r"
  shows "\<exists>result named.
     r = YDict result \<and>
     map_of result k = Some (YList (unnamed bl @ unnamed cl @ named)) \<and>
     map name_str named = map Some (sort (remdups (member_names bl @ member_names cl))) \<and>
     (\<forall>b \<in> set bl. \<forall>n. name_str b = Some n \<longrightarrow> n \<notin> set (member_names cl) \<longrightarrow> b \<in> set named) \<and>
     (\<forall>c \<in> set cl. \<forall>n. name_str c = Some n \<longrightarrow> n \<notin> set (member_names bl) \<longrightarrow> c \<in> set named) \<and>
     (\<forall>b \<in> set bl. \<forall>c \<in> set cl. \<forall>n. name_str b = Some n \<longrightarrow> name_str c = Some n \<longrightarrow>
        (\<exists>m. deep_merge b c = Inr m \<and> m \<in> set named))"
proof -
  from run obtain result where r: "r = YDict result" and mi: "merge_items base child = Inr result"
    using deep_merge_dicts by blast
  from merge_items_member_group[OF mi dc ck bk mk] obtain named0 merged0 nmd merged ns where
    bm: "base_members [] [] bl = Inr (named0, merged0)"
    and mm: "merge_members named0 merged0 cl = Inr (nmd, merged)"
    and sk: "sorted_keys (map fst nmd) = Inr ns"
    and res: "map_of result k = Some (YList (merged @ map (\<lambda>n. the (map_of nmd n)) ns))"
    by blast
  from base_members_spec[OF bm sb db] have
    m0: "merged0 = unnamed bl"
    and n0: "named0 = map (\<lambda>it. (KStr (the (name_str it)), it)) (named_members bl)"
    by simp_all
  from n0 have fst0: "map fst named0 = map KStr (member_names bl)"
    by (simp add: member_names_def comp_def)
  with db have d0: "distinct (map fst named0)"
    by (simp add: distinct_map inj_on_def)
  have dom0: "fst ` set named0 = KStr ` set (member_names bl)"
    using arg_cong[OF fst0, of set] by simp
  note spec = merge_members_spec[OF mm sc dcn]
  from spec have mrg: "merged = merged0 @ unnamed cl" by blast
  from spec dom0 have dom: "fst ` set nmd = KStr ` (set (member_names bl) \<union> set (member_names cl))"
    by (simp add: image_Un)
  from spec d0 have dn: "distinct (map fst nmd)" by blast
  from spec have frame:
    "\<forall>key. key \<notin> KStr ` set (member_names cl) \<longrightarrow> map_of nmd key = map_of named0 key"
    by blast
  from spec have per: "\<forall>c \<in> set cl. \<forall>n. name_str c = Some n \<longrightarrow>
      (case map_of named0 (KStr n) of
         None \<Rightarrow> map_of nmd (KStr n) = Some c
       | Some p \<Rightarrow> \<exists>m. deep_merge p c = Inr m \<and> map_of nmd (KStr n) = Some m)"
    by blast
  define ss where "ss = map (\<lambda>k. the (key_str k)) (map fst nmd)"
  from dom have keys: "map fst nmd = map KStr ss"
    unfolding ss_def by (intro keys_are_strings) auto
  with dn have dss: "distinct ss" by (simp add: distinct_map)
  from keys dom have "KStr ` set ss = KStr ` (set (member_names bl) \<union> set (member_names cl))"
    by (metis list.set_map)
  then have sss: "set ss = set (member_names bl) \<union> set (member_names cl)"
    by (auto simp: inj_image_eq_iff inj_on_def)
  from sk keys have ns: "ns = map KStr (sort ss)" by (simp add: sorted_keys_strings)
  define entry where "entry s = the (map_of nmd (KStr s))" for s
  define named where "named = map entry (sort ss)"
  have res': "map_of result k = Some (YList (unnamed bl @ unnamed cl @ named))"
    using res ns mrg m0 by (simp add: named_def entry_def comp_def)
  have in_named: "entry s \<in> set named" if "s \<in> set ss" for s
    using that by (simp add: named_def)
  have look0: "map_of named0 (KStr n) = Some b" if "b \<in> set bl" "name_str b = Some n" for b n
  proof -
    from that have "b \<in> set (named_members bl)"
      by (auto simp: named_members_def name_str_def split: option.splits)
    with that n0 have "(KStr n, b) \<in> set named0" by force
    with d0 show ?thesis by simp
  qed
  have none0: "map_of named0 (KStr n) = None" if "n \<notin> set (member_names bl)" for n
  proof -
    from that dom0 have "KStr n \<notin> fst ` set named0" by auto
    then show ?thesis by (simp add: map_of_eq_None_iff)
  qed
  have F1: "entry n = b" if "b \<in> set bl" "name_str b = Some n" "n \<notin> set (member_names cl)" for b n
  proof -
    from that(3) have "KStr n \<notin> KStr ` set (member_names cl)" by auto
    with frame look0[OF that(1,2)] show ?thesis by (simp add: entry_def)
  qed
  have F2: "entry n = c" if "c \<in> set cl" "name_str c = Some n" "n \<notin> set (member_names bl)" for c n
    using per that none0[OF that(3)] by (fastforce simp: entry_def)
  have F3: "\<exists>m. deep_merge b c = Inr m \<and> entry n = m"
    if "b \<in> set bl" "c \<in> set cl" "name_str b = Some n" "name_str c = Some n" for b c n
  proof -
    from per that(2,4) have "case map_of named0 (KStr n) of
         None \<Rightarrow> map_of nmd (KStr n) = Some c
       | Some p \<Rightarrow> \<exists>m. deep_merge p c = Inr m \<and> map_of nmd (KStr n) = Some m" by blast
    with look0[OF that(1,3)] show ?thesis by (auto simp: entry_def simp del: deep_merge.simps)
  qed
  have nm: "name_str (entry s) = Some s" if s: "s \<in> set ss" for s
  proof (cases "s \<in> set (member_names cl)")
    case True
    then obtain c where c: "c \<in> set cl" "name_str c = Some s"
      using member_names_obtain[OF _ sc] by blast
    show ?thesis
    proof (cases "s \<in> set (member_names bl)")
      case True
      then obtain b where b: "b \<in> set bl" "name_str b = Some s"
        using member_names_obtain[OF _ sb] by blast
      from F3[OF b(1) c(1) b(2) c(2)] obtain m where m: "deep_merge b c = Inr m" "entry s = m"
        by blast
      from ditems c(1) have "distinct (map fst (the_dict c))" by blast
      from merged_member_name[OF m(1) c(2) this] m(2) show ?thesis by simp
    next
      case False
      from F2[OF c False] c(2) show ?thesis by simp
    qed
  next
    case False
    with s sss obtain b where b: "b \<in> set bl" "name_str b = Some s"
      using member_names_obtain[OF _ sb] by blast
    from F1[OF b False] b(2) show ?thesis by simp
  qed
  have names: "map name_str named = map Some (sort (remdups (member_names bl @ member_names cl)))"
  proof -
    have "map name_str named = map Some (sort ss)"
      unfolding named_def using nm by simp
    moreover have "sort ss = sort (remdups (member_names bl @ member_names cl))"
      by (rule sort_distinct_set[OF dss]) (simp add: sss)
    ultimately show ?thesis by simp
  qed
  have P1: "\<forall>b \<in> set bl. \<forall>n. name_str b = Some n \<longrightarrow> n \<notin> set (member_names cl) \<longrightarrow> b \<in> set named"
  proof (intro ballI allI impI)
    fix b n assume b: "b \<in> set bl" "name_str b = Some n" "n \<notin> set (member_names cl)"
    from name_in_member_names[OF b(1,2)] sss have "n \<in> set ss" by simp
    from in_named[OF this] F1[OF b] show "b \<in> set named" by simp
  qed
  have P2: "\<forall>c \<in> set cl. \<forall>n. name_str c = Some n \<longrightarrow> n \<notin> set (member_names bl) \<longrightarrow> c \<in> set named"
  proof (intro ballI allI impI)
    fix c n assume c: "c \<in> set cl" "name_str c = Some n" "n \<notin> set (member_names bl)"
    from name_in_member_names[OF c(1,2)] sss have "n \<in> set ss" by simp
    from in_named[OF this] F2[OF c] show "c \<in> set named" by simp
  qed
  have P3: "\<forall>b \<in> set bl. \<forall>c \<in> set cl. \<forall>n. name_str b = Some n \<longrightarrow> name_str c = Some n \<longrightarrow>
        (\<exists>m. deep_merge b c = Inr m \<and> m \<in> set named)"
  proof (intro ballI allI impI)
    fix b c n assume h: "b \<in> set bl" "c \<in> set cl" "name_str b = Some n" "name_str c = Some n"
    from name_in_member_names[OF h(1,3)] sss have "n \<in> set ss" by simp
    from in_named[OF this] F3[OF h] show "\<exists>m. deep_merge b c = Inr m \<and> m \<in> set named" by metis
  qed
  from r res' names P1 P2 P3 show ?thesis by blast
qed

lemma wn_update:
  "well_named (YDict d) \<Longrightarrow> well_named v \<Longrightarrow> (k = ''name'' \<longrightarrow> is_str v) \<Longrightarrow>
   well_named (YDict (AList.update k v d))"
  by (induction d) auto

lemma wn_lookup:
  "well_named (YDict d) \<Longrightarrow> map_of d k = Some v \<Longrightarrow> well_named v \<and> (k = ''name'' \<longrightarrow> is_str v)"
  by (auto simp: list_all_iff dest!: map_of_SomeD)

lemma wn_named_update:
  "wn_named named \<Longrightarrow> well_named v \<Longrightarrow> wn_named (AList.update (KStr s) v named)"
  unfolding wn_named_def by (induction named) auto

lemma wn_named_lookup: "wn_named named \<Longrightarrow> map_of named n = Some v \<Longrightarrow> well_named v"
  by (auto simp: wn_named_def list_all_iff dest!: map_of_SomeD)

lemma member_hash:
  assumes "well_named it" and "member_name it = Some nv"
  shows "\<exists>s. hash_key nv = Inr (KStr s)"
proof -
  from assms(2) obtain d where d: "it = YDict d" "map_of d ''name'' = Some nv"
    by (cases it) auto
  with assms(1) have "is_str nv" using wn_lookup by blast
  then show ?thesis by (cases nv) auto
qed

lemma base_members_total:
  "wn_named named \<Longrightarrow> list_all well_named merged \<Longrightarrow> list_all well_named xs \<Longrightarrow>
   \<exists>named' merged'. base_members named merged xs = Inr (named', merged') \<and>
      wn_named named' \<and> list_all well_named merged'"
proof (induction xs arbitrary: named merged)
  case Nil
  then show ?case by simp
next
  case (Cons it rest)
  show ?case
  proof (cases "member_name it")
    case None
    with Cons.prems Cons.IH[of named "merged @ [it]"] show ?thesis by simp
  next
    case (Some nv)
    from Cons.prems(3) have "well_named it" by simp
    from member_hash[OF this Some] obtain s where s: "hash_key nv = Inr (KStr s)" by blast
    from Cons.prems Cons.IH[of "AList.update (KStr s) it named" merged] Some s
    show ?thesis by (simp add: wn_named_update)
  qed
qed

lemma sorted_keys_total:
  assumes "wn_named named"
  shows "\<exists>ns. sorted_keys (map fst named) = Inr ns \<and> set ns = fst ` set named"
proof -
  from assms have "fst ` set named \<subseteq> range KStr"
    unfolding wn_named_def list_all_iff
    by (metis (mono_tags, lifting) image_subsetI key_str.elims rangeI)
  from keys_are_strings[OF this] obtain ss where ss: "map fst named = map KStr ss" by blast
  then have "sorted_keys (map fst named) = Inr (map KStr (sort ss))"
    by (simp add: sorted_keys_strings)
  moreover have "set (map KStr (sort ss)) = fst ` set named"
    using arg_cong[OF ss, of set] by simp
  ultimately show ?thesis by blast
qed

lemma deep_merge_total:
  "well_named base \<Longrightarrow> well_named child \<Longrightarrow>
     \<exists>r. deep_merge base child = Inr r \<and> well_named r"
  and merge_items_total:
  "well_named (YDict result) \<Longrightarrow> well_named (YDict items) \<Longrightarrow>
     \<exists>r. merge_items result items = Inr r \<and> well_named (YDict r)"
  and merge_members_total:
  "wn_named named \<Longrightarrow> list_all well_named merged \<Longrightarrow> list_all well_named xs \<Longrightarrow>
     \<exists>named' merged'. merge_members named merged xs = Inr (named', merged') \<and>
        wn_named named' \<and> list_all well_named merged'"
proof (induction base child and result items and named merged xs
       rule: deep_merge_merge_items_merge_members.induct)
  case (1 base child)
  show ?case
  proof (cases "is_dict base \<and> is_dict child")
    case False
    with "1.prems" show ?thesis by auto
  next
    case True
    then obtain b c where bc: "base = YDict b" "child = YDict c"
      by (cases base; cases child) auto
    with "1.IH" "1.prems" obtain r where "merge_items b c = Inr r" "well_named (YDict r)"
      by auto
    with bc show ?thesis by simp
  qed
next
  case (2 result)
  then show ?case by simp
next
  case (3 result k child_val rest)
  from "3.prems"(2) have cv: "well_named child_val" "k = ''name'' \<longrightarrow> is_str child_val"
    and rest: "well_named (YDict rest)" by simp_all
  have plain: "\<exists>r. merge_items (AList.update k child_val result) rest = Inr r \<and> well_named (YDict r)"
    if "well_named (YDict (AList.update k child_val result)) \<Longrightarrow> well_named (YDict rest) \<Longrightarrow>
        \<exists>r. merge_items (AList.update k child_val result) rest = Inr r \<and> well_named (YDict r)"
    using that wn_update[OF "3.prems"(1) cv] rest by blast
  show ?case
  proof (cases "map_of result k")
    case None
    from plain[OF "3.IH"(1)[OF None]] None show ?thesis by simp
  next
    case (Some base_val)
    from wn_lookup[OF "3.prems"(1) Some] have bv: "well_named base_val" by simp
    consider (dicts) "is_dict base_val \<and> is_dict child_val"
      | (members) "\<not> (is_dict base_val \<and> is_dict child_val)" "is_list base_val \<and> is_list child_val"
          "k \<in> MERGE_LIST_KEYS"
      | (lists) "\<not> (is_dict base_val \<and> is_dict child_val)" "is_list base_val \<and> is_list child_val"
          "k \<notin> MERGE_LIST_KEYS"
      | (other) "\<not> (is_dict base_val \<and> is_dict child_val)" "\<not> (is_list base_val \<and> is_list child_val)"
      by blast
    then show ?thesis
    proof cases
      case dicts
      from "3.IH"(2)[OF Some dicts bv cv(1)] obtain v where
        v: "deep_merge base_val child_val = Inr v" "well_named v" by blast
      from dicts cv(2) have "k \<noteq> ''name''" by (cases child_val) auto
      with wn_update[OF "3.prems"(1) v(2)] have "well_named (YDict (AList.update k v result))"
        by simp
      from "3.IH"(3)[OF Some dicts v(1) this rest] Some dicts v(1) show ?thesis
        by (simp del: deep_merge.simps)
    next
      case members
      from members(2) obtain bl cl where l: "base_val = YList bl" "child_val = YList cl"
        by (cases base_val; cases child_val) auto
      from bv cv(1) l have wl: "list_all well_named bl" "list_all well_named cl" by simp_all
      from base_members_total[of "[]" "[]" bl] wl(1) obtain named0 merged0 where
        bm: "base_members [] [] bl = Inr (named0, merged0)"
        and w0: "wn_named named0" "list_all well_named merged0"
        by (auto simp: wn_named_def)
      from "3.IH"(4)[OF Some members _ refl w0] bm l wl(2) obtain nmd mrg where
        mm: "merge_members named0 merged0 cl = Inr (nmd, mrg)"
        and w1: "wn_named nmd" "list_all well_named mrg" by auto
      from sorted_keys_total[OF w1(1)] obtain ns where
        ns: "sorted_keys (map fst nmd) = Inr ns" "set ns = fst ` set nmd" by blast
      have "well_named (the (map_of nmd n))" if "n \<in> set ns" for n
      proof -
        from that ns(2) obtain v where "map_of nmd n = Some v"
          by (metis map_of_eq_None_iff not_Some_eq)
        with wn_named_lookup[OF w1(1)] show ?thesis by simp
      qed
      then have "well_named (YList (mrg @ map (\<lambda>n. the (map_of nmd n)) ns))"
        using w1(2) by (auto simp: list_all_iff)
      moreover from members(3) have "k \<noteq> ''name''" by (auto simp: MERGE_LIST_KEYS_def)
      ultimately have "well_named (YDict (AList.update k
                          (YList (mrg @ map (\<lambda>n. the (map_of nmd n)) ns)) result))"
        using wn_update[OF "3.prems"(1)] by blast
      from "3.IH"(5)[OF Some members _ refl _ refl ns(1) this rest] bm mm l
      obtain r where "merge_items (AList.update k
                          (YList (mrg @ map (\<lambda>n. the (map_of nmd n)) ns)) result) rest = Inr r"
        "well_named (YDict r)" by auto
      with Some members bm mm ns(1) l show ?thesis
        by (auto simp del: deep_merge.simps)
    next
      case lists
      from plain[OF "3.IH"(6)[OF Some lists]] Some lists show ?thesis
        by (auto simp del: deep_merge.simps)
    next
      case other
      from plain[OF "3.IH"(7)[OF Some other]] Some other show ?thesis
        by (auto simp del: deep_merge.simps)
    qed
  qed
next
  case (4 named merged)
  then show ?case by simp
next
  case (5 named merged it rest)
  from "5.prems"(3) have it: "well_named it" and rest: "list_all well_named rest" by simp_all
  show ?case
  proof (cases "member_name it")
    case None
    from "5.IH"(1)[OF None "5.prems"(1) _ rest] "5.prems"(2) it None show ?thesis by simp
  next
    case (Some nv)
    from member_hash[OF it Some] obtain s where s: "hash_key nv = Inr (KStr s)" by blast
    show ?thesis
    proof (cases "map_of named (KStr s)")
      case None
      from "5.IH"(2)[OF Some s None wn_named_update[OF "5.prems"(1) it] "5.prems"(2) rest]
        Some s None show ?thesis by simp
    next
      case (Some prev)
      note prev = Some
      from wn_named_lookup[OF "5.prems"(1) prev] have "well_named prev" .
      from "5.IH"(3)[OF \<open>member_name it = Some nv\<close> s prev this it] obtain m where
        m: "deep_merge prev it = Inr m" "well_named m" by blast
      from "5.IH"(4)[OF \<open>member_name it = Some nv\<close> s prev m(1)
            wn_named_update[OF "5.prems"(1) m(2)] "5.prems"(2) rest]
        \<open>member_name it = Some nv\<close> s prev m(1) show ?thesis by (simp del: deep_merge.simps)
    qed
  qed
qed

lemma wn_string_named:
  assumes "list_all well_named xs"
  shows "string_named xs"
  unfolding string_named_def list_all_iff
proof
  fix it assume "it \<in> set xs"
  with assms have w: "well_named it" by (simp add: list_all_iff)
  show "member_name it = None \<or> name_str it \<noteq> None"
  proof (cases "member_name it")
    case None
    then show ?thesis by simp
  next
    case (Some nv)
    then obtain d where d: "it = YDict d" "map_of d ''name'' = Some nv"
      by (cases it) auto
    with w have "is_str nv" using wn_lookup by blast
    with Some show ?thesis by (cases nv) (auto simp: name_str_def)
  qed
qed

lemma named_member_dict: "name_str it = Some n \<Longrightarrow> is_dict it"
  by (cases it) (auto simp: name_str_def)

lemma member_merge_fields:
  assumes run: "deep_merge b c = Inr m"
    and b: "is_dict b" and c: "is_dict c"
    and dc: "distinct (map fst (the_dict c))"
  shows "\<exists>md. m = YDict md \<and>
     (\<forall>f v. map_of (the_dict c) f = Some v \<longrightarrow> \<not> merged_field (the_dict b) f v \<longrightarrow> map_of md f = Some v) \<and>
     (\<forall>f. map_of (the_dict c) f = None \<longrightarrow> map_of md f = map_of (the_dict b) f)"
proof -
  from b c obtain bd cd where bc: "b = YDict bd" "c = YDict cd"
    by (cases b; cases c) auto
  with run obtain md where m: "m = YDict md" and mi: "merge_items bd cd = Inr md"
    using deep_merge_dicts by blast
  from dc bc have dcd: "distinct (map fst cd)" by simp
  have "\<forall>f v. map_of cd f = Some v \<longrightarrow> \<not> merged_field bd f v \<longrightarrow> map_of md f = Some v"
    using merge_items_child_field[OF mi dcd] by blast
  moreover have "\<forall>f. map_of cd f = None \<longrightarrow> map_of md f = map_of bd f"
    using merge_items_frame[OF mi] by (auto simp: map_of_eq_None_iff)
  ultimately show ?thesis using m bc by simp
qed

text \<open>
  Claim C1 as stated fails, for it speaks of every two mappings. Names that do not sort
  together (a number and a string) make \<^verbatim>\<open>sorted\<close> raise \<^verbatim>\<open>TypeError\<close>, a name that is a
  sequence cannot be a dict key and raises \<^verbatim>\<open>TypeError\<close> as well, and of two base members
  with the same name the first is dropped although no child member has that name.
\<close>

theorem member_group_merge_needs_unique_string_names:
  "deep_merge (YDict mixed_name_base) (YDict mixed_name_child) = Inl TypeError
   \<and> deep_merge (YDict list_name_base) (YDict no_members) = Inl TypeError
   \<and> deep_merge (YDict dup_name_base) (YDict no_members) =
       Inr (YDict [(''members'', YList [YDict [(''name'', YStr ''X''), (''desc'', YStr ''b2'')]])])"
  by (simp add: mixed_name_base_def mixed_name_child_def list_name_base_def dup_name_base_def
        no_members_def MERGE_LIST_KEYS_def sorted_keys_def)

text \<open>
  Claim C1, as the code has it. Let \<open>base\<close> and \<open>child\<close> be mappings that hold the
  sequences \<open>bl\<close> and \<open>cl\<close> under a member-group key, every \<^verbatim>\<open>name\<close> entry in them being a
  string and the member names being unique within each side. Then the merge returns, and
  its sequence under that key is: the unnamed entries of the base, then those of the
  child, then the named members. The named members carry every name of either side
  exactly once, sorted by name; a member named on one side only is that member
  unchanged; a member named on both sides is the merge of the base member with the child
  member, in that order, in which the child's fields win: every field of the child member
  is in the merged member with the child's value, unless it is merged with the base's
  value (two mappings, or two sequences of a member group), and the fields that only the
  base member has are kept.
\<close>

theorem member_group_merge:
  assumes mk: "k \<in> MERGE_LIST_KEYS"
    and bk: "map_of base k = Some (YList bl)" and ck: "map_of child k = Some (YList cl)"
    and dc: "distinct (map fst child)"
    and ditems: "\<forall>c \<in> set cl. distinct (map fst (the_dict c))"
    and wb: "well_named (YDict base)" and wc: "well_named (YDict child)"
    and db: "distinct (member_names bl)" and dcn: "distinct (member_names cl)"
  shows "\<exists>result named.
     deep_merge (YDict base) (YDict child) = Inr (YDict result) \<and>
     map_of result k = Some (YList (unnamed bl @ unnamed cl @ named)) \<and>
     map name_str named = map Some (sort (remdups (member_names bl @ member_names cl))) \<and>
     (\<forall>b \<in> set bl. \<forall>n. name_str b = Some n \<longrightarrow> n \<notin> set (member_names cl) \<longrightarrow> b \<in> set named) \<and>
     (\<forall>c \<in> set cl. \<forall>n. name_str c = Some n \<longrightarrow> n \<notin> set (member_names bl) \<longrightarrow> c \<in> set named) \<and>
     (\<forall>b \<in> set bl. \<forall>c \<in> set cl. \<forall>n. name_str b = Some n \<longrightarrow> name_str c = Some n \<longrightarrow>
        (\<exists>m. deep_merge b c = Inr (YDict m) \<and> YDict m \<in> set named \<and>
           (\<forall>f v. map_of (the_dict c) f = Some v \<longrightarrow> \<not> merged_field (the_dict b) f v \<longrightarrow>
                  map_of m f = Some v) \<and>
           (\<forall>f. map_of (the_dict c) f = None \<longrightarrow> map_of m f = map_of (the_dict b) f)))"
proof -
  from deep_merge_total[OF wb wc] obtain r where run: "deep_merge (YDict base) (YDict child) = Inr r"
    by blast
  from wn_lookup[OF wb bk] have "list_all well_named bl" by simp
  then have sb: "string_named bl" by (rule wn_string_named)
  from wn_lookup[OF wc ck] have "list_all well_named cl" by simp
  then have sc: "string_named cl" by (rule wn_string_named)
  from member_group_merge_result[OF mk bk ck dc ditems sb sc db dcn run] run
  obtain result named where
    r: "deep_merge (YDict base) (YDict child) = Inr (YDict result)"
       "map_of result k = Some (YList (unnamed bl @ unnamed cl @ named))"
       "map name_str named = map Some (sort (remdups (member_names bl @ member_names cl)))"
       "\<forall>b \<in> set bl. \<forall>n. name_str b = Some n \<longrightarrow> n \<notin> set (member_names cl) \<longrightarrow> b \<in> set named"
       "\<forall>c \<in> set cl. \<forall>n. name_str c = Some n \<longrightarrow> n \<notin> set (member_names bl) \<longrightarrow> c \<in> set named"
    and both: "\<forall>b \<in> set bl. \<forall>c \<in> set cl. \<forall>n. name_str b = Some n \<longrightarrow> name_str c = Some n \<longrightarrow>
        (\<exists>m. deep_merge b c = Inr m \<and> m \<in> set named)"
    by blast
  have "\<forall>b \<in> set bl. \<forall>c \<in> set cl. \<forall>n. name_str b = Some n \<longrightarrow> name_str c = Some n \<longrightarrow>
        (\<exists>m. deep_merge b c = Inr (YDict m) \<and> YDict m \<in> set named \<and>
           (\<forall>f v. map_of (the_dict c) f = Some v \<longrightarrow> \<not> merged_field (the_dict b) f v \<longrightarrow>
                  map_of m f = Some v) \<and>
           (\<forall>f. map_of (the_dict c) f = None \<longrightarrow> map_of m f = map_of (the_dict b) f))"
  proof (intro ballI allI impI)
    fix b c n
    assume b: "b \<in> set bl" and c: "c \<in> set cl"
      and nb: "name_str b = Some n" and nc: "name_str c = Some n"
    from both b c nb nc obtain m where m: "deep_merge b c = Inr m" "m \<in> set named" by blast
    from ditems c have dcs: "distinct (map fst (the_dict c))" by blast
    from member_merge_fields[OF m(1) named_member_dict[OF nb] named_member_dict[OF nc] dcs] m
    show "\<exists>m. deep_merge b c = Inr (YDict m) \<and> YDict m \<in> set named \<and>
           (\<forall>f v. map_of (the_dict c) f = Some v \<longrightarrow> \<not> merged_field (the_dict b) f v \<longrightarrow>
                  map_of m f = Some v) \<and>
           (\<forall>f. map_of (the_dict c) f = None \<longrightarrow> map_of m f = map_of (the_dict b) f)"
      by blast
  qed
  with r show ?thesis by blast
qed

theorem member_group_merge_witness:
  "\<exists>result named.
     deep_merge (YDict spec_base) (YDict spec_child) = Inr (YDict result) \<and>
     map_of result ''members'' =
       Some (YList ([] @ [] @ named)) \<and>
     map name_str named = [Some ''X'', Some ''Y''] \<and>
     YDict [(''name'', YStr ''X''), (''desc'', YStr ''c'')] \<in> set named \<and>
     YDict [(''name'', YStr ''Y''), (''desc'', YStr ''c2'')] \<in> set named"
proof -
  let ?bl = "[YDict [(''name'', YStr ''X''), (''desc'', YStr ''b'')]]"
  let ?cl = "[YDict [(''name'', YStr ''X''), (''desc'', YStr ''c'')],
              YDict [(''name'', YStr ''Y''), (''desc'', YStr ''c2'')]]"
  have names: "member_names ?bl = [''X'']" "member_names ?cl = [''X'', ''Y'']"
    "unnamed ?bl = []" "unnamed ?cl = []"
    by (simp_all add: member_names_def named_members_def name_str_def unnamed_def)
  have "\<exists>result named.
     deep_merge (YDict spec_base) (YDict spec_child) = Inr (YDict result) \<and>
     map_of result ''members'' = Some (YList (unnamed ?bl @ unnamed ?cl @ named)) \<and>
     map name_str named = map Some (sort (remdups (member_names ?bl @ member_names ?cl))) \<and>
     (\<forall>b \<in> set ?bl. \<forall>n. name_str b = Some n \<longrightarrow> n \<notin> set (member_names ?cl) \<longrightarrow> b \<in> set named) \<and>
     (\<forall>c \<in> set ?cl. \<forall>n. name_str c = Some n \<longrightarrow> n \<notin> set (member_names ?bl) \<longrightarrow> c \<in> set named) \<and>
     (\<forall>b \<in> set ?bl. \<forall>c \<in> set ?cl. \<forall>n. name_str b = Some n \<longrightarrow> name_str c = Some n \<longrightarrow>
        (\<exists>m. deep_merge b c = Inr (YDict m) \<and> YDict m \<in> set named \<and>
           (\<forall>f v. map_of (the_dict c) f = Some v \<longrightarrow> \<not> merged_field (the_dict b) f v \<longrightarrow>
                  map_of m f = Some v) \<and>
           (\<forall>f. map_of (the_dict c) f = None \<longrightarrow> map_of m f = map_of (the_dict b) f)))"
    by (rule member_group_merge[where k = "''members''"])
       (simp_all add: spec_base_def spec_child_def MERGE_LIST_KEYS_def names)
  then obtain result named where
    r: "deep_merge (YDict spec_base) (YDict spec_child) = Inr (YDict result)"
       "map_of result ''members'' = Some (YList (unnamed ?bl @ unnamed ?cl @ named))"
       "map name_str named = map Some (sort (remdups (member_names ?bl @ member_names ?cl)))"
    and only_child: "\<forall>c \<in> set ?cl. \<forall>n. name_str c = Some n \<longrightarrow> n \<notin> set (member_names ?bl) \<longrightarrow> c \<in> set named"
    and both: "\<forall>b \<in> set ?bl. \<forall>c \<in> set ?cl. \<forall>n. name_str b = Some n \<longrightarrow> name_str c = Some n \<longrightarrow>
        (\<exists>m. deep_merge b c = Inr (YDict m) \<and> YDict m \<in> set named \<and>
           (\<forall>f v. map_of (the_dict c) f = Some v \<longrightarrow> \<not> merged_field (the_dict b) f v \<longrightarrow>
                  map_of m f = Some v) \<and>
           (\<forall>f. map_of (the_dict c) f = None \<longrightarrow> map_of m f = map_of (the_dict b) f))"
    by blast
  from r(3) have "map name_str named = [Some ''X'', Some ''Y'']"
    by (simp add: names)
  moreover from only_child have "YDict [(''name'', YStr ''Y''), (''desc'', YStr ''c2'')] \<in> set named"
    by (simp add: names name_str_def)
  moreover from both have "YDict [(''name'', YStr ''X''), (''desc'', YStr ''c'')] \<in> set named"
    by (simp add: names name_str_def)
  ultimately show ?thesis using r(1,2) by (simp add: names)
qed

section \<open>Resolution: cache hits\<close>

lemma build_caches_result:
  "build_merged_for_entry fuel idx e st = Some (Inr (view, st')) \<Longrightarrow> cache st' (name e) = Some view"
  by (cases fuel) (auto simp: Let_def split: option.splits sum.splits yaml.splits)

text \<open>
  Claim C6. Once a resolution has returned a view, resolving the same record again in the
  state it left returns the same view and leaves the state as it is: the cache is not
  written and the trace gains no event, so neither a resolution body nor
  \<^verbatim>\<open>deep_merge\<close> runs again.
\<close>

theorem resolve_twice:
  assumes "build_merged_for_entry fuel idx e st = Some (Inr (view, st'))"
  shows "build_merged_for_entry (Suc fuel') idx e st' = Some (Inr (view, st'))"
  using build_caches_result[OF assms] by simp

theorem resolve_twice_witness:
  "\<exists>view st'. build_merged_for_entry (Suc (Suc 0)) idx0 e_leaf init_state = Some (Inr (view, st'))
     \<and> build_merged_for_entry (Suc 0) idx0 e_leaf st' = Some (Inr (view, st'))
     \<and> trace st' = [Resolved ''Leaf'', Resolved ''Base'', Merged ''Base'']"
proof -
  have "\<exists>view st'. build_merged_for_entry (Suc (Suc 0)) idx0 e_leaf init_state = Some (Inr (view, st'))
     \<and> trace st' = [Resolved ''Leaf'', Resolved ''Base'', Merged ''Base'']"
    by (simp add: idx0_def e_leaf_def e_base_def init_state_def get_base_names_def BASE_KEYS_def Let_def own_only_def)
  then obtain view st' where
    r: "build_merged_for_entry (Suc (Suc 0)) idx0 e_leaf init_state = Some (Inr (view, st'))"
    and t: "trace st' = [Resolved ''Leaf'', Resolved ''Base'', Merged ''Base'']"
    by blast
  from resolve_twice[OF r, of 0] r t show ?thesis by blast
qed

section \<open>Resolution: the fields that the first definition forces\<close>

lemma map_of_own_only:
  "map_of (own_only k body m) k' = (if k' = k then map_of body k else map_of m k')"
  by (auto simp: own_only_def update_conv' delete_conv' split: option.splits)

lemma shadowed_view:
  assumes "build_merged_for_entry_shadowed fuel idx e st = Some (Inr (view, st'))"
    and "cache st (name e) = None"
  shows "map_of view ''inherits'' = map_of (data e) ''inherits''"
    and "map_of view ''name'' =
           Some (case map_of (data e) ''name'' of Some v \<Rightarrow> v | None \<Rightarrow> YStr (name e))"
  using assms
  by (cases fuel;
      auto simp: Let_def map_of_own_only update_conv'
           split: option.splits sum.splits yaml.splits if_splits)+

text \<open>
  Claim C3 at a concrete record set: \<open>e_leaf\<close> declares \<^verbatim>\<open>extends: Base\<close> and no
  \<^verbatim>\<open>inherits\<close>; its base declares \<^verbatim>\<open>inherits: Root\<close>. The definition that runs leaves
  the base's \<^verbatim>\<open>inherits\<close> (and its \<^verbatim>\<open>name\<close>) in the leaf's view; the body of the first
  definition removes it.
\<close>

theorem inherited_inherits_leaks:
  "map_of (data e_leaf) ''inherits'' = None
   \<and> map_option (map_sum id fst) (build_merged_for_entry (Suc (Suc 0)) idx0 e_leaf init_state)
       = Some (Inr [(''name'', YStr ''Base''), (''inherits'', YStr ''Root''),
                    (''_ancestors'', YList [YStr ''Base'']), (''extends'', YStr ''Base'')])
   \<and> map_option (map_sum id fst)
        (build_merged_for_entry_shadowed (Suc (Suc 0)) idx0 e_leaf init_state)
       = Some (Inr [(''name'', YStr ''Leaf''),
                    (''_ancestors'', YList [YStr ''Base'']), (''extends'', YStr ''Base'')])"
  by (simp add: idx0_def e_leaf_def e_base_def init_state_def get_base_names_def BASE_KEYS_def
        Let_def own_only_def)

text \<open>
  Claim C5 at a concrete record set: \<open>e_nameless\<close> is indexed as \<^verbatim>\<open>Widget\<close>, declares no
  \<^verbatim>\<open>name\<close> in its body and inherits from \<^verbatim>\<open>Base\<close>. The definition that runs gives
  its view the ancestor's name; the body of the first definition gives it the indexed name.
\<close>

theorem ancestor_name_leaks:
  "map_of (data e_nameless) ''name'' = None \<and> name e_nameless = ''Widget''
   \<and> (\<exists>view st'. build_merged_for_entry (Suc (Suc 0)) idx0 e_nameless init_state
                    = Some (Inr (view, st'))
         \<and> map_of view ''name'' = Some (YStr ''Base''))
   \<and> (\<exists>view st'. build_merged_for_entry_shadowed (Suc (Suc 0)) idx0 e_nameless init_state
                    = Some (Inr (view, st'))
         \<and> map_of view ''name'' = Some (YStr ''Widget''))"
  by (simp add: idx0_def e_nameless_def e_base_def init_state_def get_base_names_def BASE_KEYS_def
        Let_def own_only_def)

section \<open>Resolution: the leaf keeps its own values\<close>

lemma distinct_own_only:
  "distinct (map fst m) \<Longrightarrow> distinct (map fst (own_only k body m))"
  by (auto simp: own_only_def distinct_update distinct_delete split: option.splits)

lemma build_keeps_distinct:
  "build_merged_for_entry fuel idx e st = Some (Inr (view, st')) \<Longrightarrow>
     distinct_bodies idx \<Longrightarrow> distinct_views st \<Longrightarrow> distinct (map fst (data e)) \<Longrightarrow>
     distinct (map fst view) \<and> distinct_views st'"
  and resolve_keeps_distinct:
  "resolve_bases fuel idx names merged anc st = Some (Inr (merged', anc', st')) \<Longrightarrow>
     distinct_bodies idx \<Longrightarrow> distinct_views st \<Longrightarrow> distinct (map fst (the_dict merged)) \<Longrightarrow>
     is_dict merged \<Longrightarrow>
     is_dict merged' \<and> distinct (map fst (the_dict merged')) \<and> distinct_views st'"
proof (induction fuel idx e st and fuel idx names merged anc st
       arbitrary: view st' and merged' anc' st'
       rule: build_merged_for_entry_resolve_bases.induct)
  case (1 name_index ent st)
  then show ?case by simp
next
  case (2 fuel name_index ent st)
  show ?case
  proof (cases "cache st (name ent)")
    case (Some v)
    with "2.prems" show ?thesis by (auto simp: distinct_views_def)
  next
    case None
    let ?st0 = "st\<lparr>trace := trace st @ [Resolved (name ent)]\<rparr>"
    from "2.prems"(1) None obtain merged anc st1 deduped m where
      loop: "resolve_bases fuel name_index (get_base_names (data ent)) (YDict (data ent)) [] ?st0
               = Some (Inr (merged, anc, st1))"
      and m: "merged = YDict m"
      and view: "view = own_only ''descendants'' (data ent) (AList.update ''_ancestors'' (YList deduped) m)"
      and st': "st' = st1\<lparr>cache := (cache st1)(name ent \<mapsto> view)\<rparr>"
      by (auto simp: Let_def split: option.splits sum.splits yaml.splits)
    have "distinct_views ?st0" using "2.prems"(3) by (simp add: distinct_views_def)
    from "2.IH"[OF None loop "2.prems"(2) this] "2.prems"(4) m
    have dm: "distinct (map fst m)" and dv: "distinct_views st1" by auto
    from dm have "distinct (map fst view)"
      unfolding view by (intro distinct_own_only) (simp add: distinct_update)
    moreover from this dv have "distinct_views st'"
      unfolding st' by (auto simp: distinct_views_def)
    ultimately show ?thesis by simp
  qed
next
  case (3 fuel name_index merged ancestors st)
  then show ?case by simp
next
  case (4 fuel name_index base_name rest merged ancestors st)
  show ?case
  proof (cases "name_index base_name")
    case None
    with "4.prems" "4.IH"(1)[OF None] show ?thesis by simp
  next
    case (Some base_entry)
    from "4.prems"(1) Some obtain base_merged st1 merged1 where
      b: "build_merged_for_entry fuel name_index base_entry st = Some (Inr (base_merged, st1))"
      and dm: "deep_merge (YDict base_merged) merged = Inr merged1"
      and rest: "resolve_bases fuel name_index rest merged1
                  (ancestors @ [YStr base_name] @
                     (case map_of base_merged ''_ancestors'' of Some (YList xs) \<Rightarrow> xs | _ \<Rightarrow> []))
                  (st1\<lparr>trace := trace st1 @ [Merged base_name]\<rparr>) = Some (Inr (merged', anc', st'))"
      by (auto split: option.splits sum.splits)
    from "4.prems"(2) Some have "distinct (map fst (data base_entry))"
      by (auto simp: distinct_bodies_def)
    from "4.IH"(2)[OF Some b "4.prems"(2,3) this]
    have dbm: "distinct (map fst base_merged)" and dv1: "distinct_views st1" by auto
    from "4.prems"(5) obtain m where m: "merged = YDict m" by (cases merged) auto
    from dm m obtain d where d: "merged1 = YDict d" "merge_items base_merged m = Inr d"
      using deep_merge_dicts by blast
    from merge_items_distinct[OF d(2) dbm] d(1)
    have "distinct (map fst (the_dict merged1))" "is_dict merged1" by auto
    moreover have "distinct_views (st1\<lparr>trace := trace st1 @ [Merged base_name]\<rparr>)"
      using dv1 by (simp add: distinct_views_def)
    ultimately show ?thesis
      using "4.IH"(3)[OF Some b refl refl dm rest "4.prems"(2)] by auto
  qed
qed

lemma resolve_keeps_own_value:
  assumes "distinct_bodies idx" and "\<not> is_dict v" and "is_list v \<longrightarrow> k \<notin> MERGE_LIST_KEYS"
  shows "resolve_bases fuel idx names (YDict m) anc st = Some (Inr (merged', anc', st')) \<Longrightarrow>
     distinct_views st \<Longrightarrow> distinct (map fst m) \<Longrightarrow> map_of m k = Some v \<Longrightarrow>
     \<exists>m'. merged' = YDict m' \<and> map_of m' k = Some v"
proof (induction names arbitrary: m anc st)
  case Nil
  then show ?case by auto
next
  case (Cons base_name rest)
  show ?case
  proof (cases "idx base_name")
    case None
    with Cons.prems Cons.IH[of m anc st] show ?thesis by simp
  next
    case (Some base_entry)
    from Cons.prems(1) Some obtain base_merged st1 merged1 where
      b: "build_merged_for_entry fuel idx base_entry st = Some (Inr (base_merged, st1))"
      and dm: "deep_merge (YDict base_merged) (YDict m) = Inr merged1"
      and rest: "resolve_bases fuel idx rest merged1
                  (anc @ [YStr base_name] @
                     (case map_of base_merged ''_ancestors'' of Some (YList xs) \<Rightarrow> xs | _ \<Rightarrow> []))
                  (st1\<lparr>trace := trace st1 @ [Merged base_name]\<rparr>) = Some (Inr (merged', anc', st'))"
      by (auto split: option.splits sum.splits)
    from assms(1) Some have "distinct (map fst (data base_entry))"
      by (auto simp: distinct_bodies_def)
    from build_keeps_distinct[OF b assms(1) Cons.prems(2) this]
    have dbm: "distinct (map fst base_merged)" and dv1: "distinct_views st1" by auto
    from dm obtain d where d: "merged1 = YDict d" "merge_items base_merged m = Inr d"
      using deep_merge_dicts by blast
    have dd: "distinct (map fst d)" by (rule merge_items_distinct[OF d(2) dbm])
    have kd: "map_of d k = Some v"
      by (rule merge_items_child_wins[OF d(2) Cons.prems(3,4) assms(2,3)])
    have "distinct_views (st1\<lparr>trace := trace st1 @ [Merged base_name]\<rparr>)"
      using dv1 by (simp add: distinct_views_def)
    from Cons.IH[OF rest[unfolded d(1)] this dd kd] show ?thesis .
  qed
qed

lemma build_keeps_own_value:
  assumes run: "build_merged_for_entry fuel idx e st = Some (Inr (view, st'))"
    and miss: "cache st (name e) = None"
    and own: "map_of (data e) k = Some v"
    and v: "\<not> is_dict v" "is_list v \<longrightarrow> k \<notin> MERGE_LIST_KEYS"
    and k: "k \<noteq> ''_ancestors''" "k \<noteq> ''descendants''"
    and wf: "distinct (map fst (data e))" "distinct_bodies idx" "distinct_views st"
  shows "map_of view k = Some v"
proof -
  from run obtain fuel' where fuel: "fuel = Suc fuel'" by (cases fuel) auto
  let ?st0 = "st\<lparr>trace := trace st @ [Resolved (name e)]\<rparr>"
  from run miss fuel obtain merged anc st1 deduped m where
    loop: "resolve_bases fuel' idx (get_base_names (data e)) (YDict (data e)) [] ?st0
             = Some (Inr (merged, anc, st1))"
    and m: "merged = YDict m"
    and view: "view = own_only ''descendants'' (data e) (AList.update ''_ancestors'' (YList deduped) m)"
    by (auto simp: Let_def split: option.splits sum.splits yaml.splits)
  have "distinct_views ?st0" using wf(3) by (simp add: distinct_views_def)
  from resolve_keeps_own_value[OF wf(2) v loop this wf(1) own] m
  have "map_of m k = Some v" by simp
  with k show ?thesis
    unfolding view by (simp add: map_of_own_only update_conv')
qed

text \<open>
  Claim C8. A leaf that declares a deprecation notice (a scalar or a sequence, as a
  notice is) has exactly that notice in its resolved view, whatever its bases carry and
  so in particular when no base carries one: in every merge step the leaf's side is the
  child, and the child's value replaces a base's value of a key that is not a mapping on
  both sides.
\<close>

theorem leaf_deprecation_message_wins:
  assumes "build_merged_for_entry fuel idx e st = Some (Inr (view, st'))"
    and "cache st (name e) = None"
    and "map_of (data e) ''deprecation_message'' = Some v"
    and "\<not> is_dict v"
    and "distinct (map fst (data e))" and "distinct_bodies idx" and "distinct_views st"
  shows "map_of view ''deprecation_message'' = Some v"
  using build_keeps_own_value[OF assms(1,2,3,4) _ _ _ assms(5,6,7)]
  by (simp add: MERGE_LIST_KEYS_def)

theorem leaf_deprecation_message_wins_witness:
  "\<exists>view st'. build_merged_for_entry (Suc (Suc 0)) idx_dep e_deprecated init_state = Some (Inr (view, st'))
     \<and> map_of (data e_plain_base) ''deprecation_message'' = None
     \<and> map_of view ''deprecation_message'' = Some (YStr ''use New'')"
proof -
  have "\<exists>view st'. build_merged_for_entry (Suc (Suc 0)) idx_dep e_deprecated init_state
          = Some (Inr (view, st'))"
    by (simp add: idx_dep_def e_deprecated_def e_plain_base_def init_state_def get_base_names_def
          BASE_KEYS_def Let_def own_only_def)
  then obtain view st' where
    run: "build_merged_for_entry (Suc (Suc 0)) idx_dep e_deprecated init_state = Some (Inr (view, st'))"
    by blast
  have "map_of view ''deprecation_message'' = Some (YStr ''use New'')"
    by (rule leaf_deprecation_message_wins[OF run])
       (auto simp: idx_dep_def e_deprecated_def e_plain_base_def init_state_def
          distinct_bodies_def distinct_views_def split: if_splits)
  with run show ?thesis by (auto simp: e_plain_base_def)
qed

section \<open>Resolution: cycles, termination and repeated ancestors\<close>

lemma cycle_no_result:
  "cache st ''A'' = None \<Longrightarrow> cache st ''B'' = None \<Longrightarrow>
   build_merged_for_entry fuel cyc_index cyc_a st = None \<and>
   build_merged_for_entry fuel cyc_index cyc_b st = None"
proof (induction fuel arbitrary: st)
  case 0
  then show ?case by simp
next
  case (Suc fuel)
  have a: "get_base_names (data cyc_a) = [''B'']" and b: "get_base_names (data cyc_b) = [''A'']"
    by (simp_all add: cyc_a_def cyc_b_def get_base_names_def BASE_KEYS_def)
  have na: "name cyc_a = ''A''" and nb: "name cyc_b = ''B''"
    by (simp_all add: cyc_a_def cyc_b_def)
  have ia: "cyc_index ''A'' = Some cyc_a" and ib: "cyc_index ''B'' = Some cyc_b"
    by (simp_all add: cyc_index_def)
  from Suc.prems
  have "build_merged_for_entry fuel cyc_index cyc_b (st\<lparr>trace := trace st @ [Resolved ''A'']\<rparr>) = None"
    and "build_merged_for_entry fuel cyc_index cyc_a (st\<lparr>trace := trace st @ [Resolved ''B'']\<rparr>) = None"
    using Suc.IH by simp_all
  with Suc.prems show ?case
    by (simp add: a b na nb ia ib)
qed

text \<open>
  Claim C2 as stated fails on a genuine cycle: with A declaring base B and B declaring
  base A, resolving A returns for no recursion depth. A name enters the cache only when
  its resolution ends (line 357), so the cache never cuts the cycle.
\<close>

theorem cyclic_bases_never_return:
  "\<not> (\<exists>fuel r. build_merged_for_entry fuel cyc_index cyc_a init_state = Some r)"
  using cycle_no_result[of init_state] by (simp add: init_state_def)

lemma resolve_bases_returns:
  assumes "\<And>b eb st. b \<in> set names \<Longrightarrow> idx b = Some eb \<Longrightarrow> \<exists>r. build_merged_for_entry fuel idx eb st = Some r"
  shows "\<exists>r. resolve_bases fuel idx names merged anc st = Some r"
  using assms
proof (induction names arbitrary: merged anc st)
  case Nil
  then show ?case by simp
next
  case (Cons b rest)
  have rest: "\<exists>r. resolve_bases fuel idx rest m a s = Some r" for m a s
    by (rule Cons.IH, rule Cons.prems) auto
  show ?case
  proof (cases "idx b")
    case None
    with rest show ?thesis by simp
  next
    case (Some eb)
    from Cons.prems[of b eb st] Some obtain r where r: "build_merged_for_entry fuel idx eb st = Some r"
      by auto
    with Some rest show ?thesis
      by (auto split: sum.splits)
  qed
qed

lemma build_returns:
  "ranked idx rank \<Longrightarrow>
   (\<And>b. b \<in> set (get_base_names (data e)) \<Longrightarrow> idx b \<noteq> None \<Longrightarrow> rank b < fuel) \<Longrightarrow>
   \<exists>r. build_merged_for_entry (Suc fuel) idx e st = Some r"
proof (induction fuel arbitrary: e st rule: less_induct)
  case (less fuel)
  have "\<exists>r. build_merged_for_entry fuel idx eb s = Some r"
    if b: "b \<in> set (get_base_names (data e))" and eb: "idx b = Some eb" for b eb s
  proof -
    from less.prems(2)[OF b] eb have lt: "rank b < fuel" by simp
    then obtain f where f: "fuel = Suc f" by (cases fuel) auto
    have "rank b' < f" if "b' \<in> set (get_base_names (data eb))" "idx b' \<noteq> None" for b'
    proof -
      from less.prems(1) eb that have "rank b' < rank b" by (auto simp: ranked_def)
      with lt f show ?thesis by simp
    qed
    from less.IH[of f eb s, OF _ less.prems(1) this] f show ?thesis by simp
  qed
  then have "\<exists>r. resolve_bases fuel idx (get_base_names (data e)) (YDict (data e)) []
                 (st\<lparr>trace := trace st @ [Resolved (name e)]\<rparr>) = Some r"
    by (intro resolve_bases_returns) blast
  then show ?case
    by (auto simp: Let_def split: option.splits sum.splits yaml.splits)
qed

lemma resolved_names_append: "resolved_names (xs @ ys) = resolved_names xs @ resolved_names ys"
  by (induction xs rule: resolved_names.induct) auto

lemma fresh_work_trans:
  assumes "fresh_work st st1 ns1" and "fresh_work st1 st2 ns2"
  shows "fresh_work st st2 (ns1 @ ns2)"
proof -
  from assms obtain e1 e2 where
    t: "trace st1 = trace st @ e1" "resolved_names e1 = ns1"
       "trace st2 = trace st1 @ e2" "resolved_names e2 = ns2"
    by (auto simp: fresh_work_def)
  then have "trace st2 = trace st @ (e1 @ e2) \<and> resolved_names (e1 @ e2) = ns1 @ ns2"
    by (simp add: resolved_names_append)
  then have "\<exists>evs. trace st2 = trace st @ evs \<and> resolved_names evs = ns1 @ ns2" by blast
  moreover from assms have "distinct (ns1 @ ns2)"
    by (auto simp: fresh_work_def)
  moreover from assms have "set (ns1 @ ns2) \<inter> dom (cache st) = {}"
    by (auto simp: fresh_work_def)
  moreover from assms have "dom (cache st2) = dom (cache st) \<union> set (ns1 @ ns2)"
    by (auto simp: fresh_work_def)
  ultimately show ?thesis unfolding fresh_work_def by blast
qed

lemma fresh_work_merged:
  "fresh_work st (st\<lparr>trace := trace st @ [Merged b]\<rparr>) []"
  by (simp add: fresh_work_def)

lemma fresh_work_resolved:
  assumes "fresh_work (st\<lparr>trace := trace st @ [Resolved n]\<rparr>) st1 ns"
    and "n \<notin> set ns" and "cache st n = None"
  shows "fresh_work st (st1\<lparr>cache := (cache st1)(n \<mapsto> view)\<rparr>) (n # ns)"
proof -
  from assms(1) obtain evs where
    "trace st1 = trace st @ Resolved n # evs" "resolved_names evs = ns"
    by (auto simp: fresh_work_def)
  then have "trace st1 = trace st @ (Resolved n # evs) \<and> resolved_names (Resolved n # evs) = n # ns"
    by simp
  then have "\<exists>evs. trace st1 = trace st @ evs \<and> resolved_names evs = n # ns" by blast
  with assms show ?thesis
    by (auto simp: fresh_work_def)
qed

lemma build_work:
  "build_merged_for_entry fuel idx e st = Some (Inr (view, st')) \<Longrightarrow>
     ranked idx rank \<Longrightarrow> consistent_index idx \<Longrightarrow> idx (name e) = Some e \<Longrightarrow>
     \<exists>ns. fresh_work st st' ns \<and> (\<forall>x \<in> set ns. rank x \<le> rank (name e))"
  and resolve_work:
  "resolve_bases fuel idx names merged anc st = Some (Inr (merged', anc', st')) \<Longrightarrow>
     ranked idx rank \<Longrightarrow> consistent_index idx \<Longrightarrow>
     (\<forall>b \<in> set names. idx b \<noteq> None \<longrightarrow> rank b < bound) \<Longrightarrow>
     \<exists>ns. fresh_work st st' ns \<and> (\<forall>x \<in> set ns. rank x < bound)"
proof (induction fuel idx e st and fuel idx names merged anc st
       arbitrary: view st' and merged' anc' st' bound
       rule: build_merged_for_entry_resolve_bases.induct)
  case (1 name_index ent st)
  then show ?case by simp
next
  case (2 fuel name_index ent st)
  show ?case
  proof (cases "cache st (name ent)")
    case (Some v)
    with "2.prems"(1) have "st' = st" by simp
    then have "fresh_work st st' []" by (simp add: fresh_work_def)
    then show ?thesis by fastforce
  next
    case None
    let ?st0 = "st\<lparr>trace := trace st @ [Resolved (name ent)]\<rparr>"
    from "2.prems"(1) None obtain merged anc st1 where
      loop: "resolve_bases fuel name_index (get_base_names (data ent)) (YDict (data ent)) [] ?st0
               = Some (Inr (merged, anc, st1))"
      and st': "st' = st1\<lparr>cache := (cache st1)(name ent \<mapsto> view)\<rparr>"
      by (auto simp: Let_def split: option.splits sum.splits yaml.splits)
    have "\<forall>b \<in> set (get_base_names (data ent)). name_index b \<noteq> None \<longrightarrow> rank b < rank (name ent)"
      using "2.prems"(2,4) by (auto simp: ranked_def)
    from "2.IH"[OF None loop "2.prems"(2,3) this] obtain ns where
      ns: "fresh_work ?st0 st1 ns" "\<forall>x \<in> set ns. rank x < rank (name ent)" by blast
    from ns(2) have "name ent \<notin> set ns" by auto
    from fresh_work_resolved[OF ns(1) this None]
    have "fresh_work st st' (name ent # ns)" unfolding st' .
    moreover from ns(2) have "\<forall>x \<in> set (name ent # ns). rank x \<le> rank (name ent)" by auto
    ultimately show ?thesis by blast
  qed
next
  case (3 fuel name_index merged ancestors st)
  then have "fresh_work st st' []" by (simp add: fresh_work_def)
  then show ?case by fastforce
next
  case (4 fuel name_index base_name rest merged ancestors st)
  from "4.prems"(4) have restb: "\<forall>b \<in> set rest. name_index b \<noteq> None \<longrightarrow> rank b < bound" by simp
  show ?case
  proof (cases "name_index base_name")
    case None
    with "4.prems"(1) "4.IH"(1)[OF None _ "4.prems"(2,3) restb] show ?thesis by simp
  next
    case (Some base_entry)
    from "4.prems"(1) Some obtain base_merged st1 merged1 where
      b: "build_merged_for_entry fuel name_index base_entry st = Some (Inr (base_merged, st1))"
      and dm: "deep_merge (YDict base_merged) merged = Inr merged1"
      and rest: "resolve_bases fuel name_index rest merged1
                  (ancestors @ [YStr base_name] @
                     (case map_of base_merged ''_ancestors'' of Some (YList xs) \<Rightarrow> xs | _ \<Rightarrow> []))
                  (st1\<lparr>trace := trace st1 @ [Merged base_name]\<rparr>) = Some (Inr (merged', anc', st'))"
      by (auto split: option.splits sum.splits)
    from "4.prems"(3) Some have nm: "name base_entry = base_name"
      by (auto simp: consistent_index_def)
    with Some have "name_index (name base_entry) = Some base_entry" by simp
    from "4.IH"(2)[OF Some b "4.prems"(2,3) this] obtain ns1 where
      ns1: "fresh_work st st1 ns1" "\<forall>x \<in> set ns1. rank x \<le> rank base_name"
      using nm by auto
    from "4.IH"(3)[OF Some b refl refl dm rest "4.prems"(2,3) restb] obtain ns2 where
      ns2: "fresh_work (st1\<lparr>trace := trace st1 @ [Merged base_name]\<rparr>) st' ns2"
           "\<forall>x \<in> set ns2. rank x < bound" by blast
    from fresh_work_trans[OF fresh_work_trans[OF ns1(1) fresh_work_merged] ns2(1)]
    have "fresh_work st st' (ns1 @ ns2)" by simp
    moreover from "4.prems"(4) Some have "rank base_name < bound" by simp
    with ns1(2) ns2(2) have "\<forall>x \<in> set (ns1 @ ns2). rank x < bound" by fastforce
    ultimately show ?thesis by blast
  qed
qed

lemma dia_ranked: "ranked dia_index dia_rank"
  by (auto simp: ranked_def dia_index_def dia_rank_def dia_a_def dia_b_def dia_c_def
        get_base_names_def BASE_KEYS_def split: if_splits)

lemma dia_consistent: "consistent_index dia_index"
  by (auto simp: consistent_index_def dia_index_def dia_a_def dia_b_def dia_c_def split: if_splits)

text \<open>
  Claim C2, for the record sets the code handles: when the base-reference relation of the
  index is acyclic, resolving a record of the index returns as soon as the recursion depth
  exceeds the record's rank; and whenever a resolution returns a view, no name was resolved
  twice on the way and none that was already cached (a diamond ancestor is resolved once).
\<close>

theorem acyclic_resolution_terminates:
  assumes "ranked idx rank" and "consistent_index idx" and "idx (name e) = Some e"
  shows "(\<forall>fuel. rank (name e) < fuel \<longrightarrow> (\<exists>r. build_merged_for_entry fuel idx e st = Some r))
    \<and> (\<forall>fuel view st'. build_merged_for_entry fuel idx e st = Some (Inr (view, st')) \<longrightarrow>
          (\<exists>evs. trace st' = trace st @ evs \<and> distinct (resolved_names evs)
                 \<and> set (resolved_names evs) \<inter> dom (cache st) = {}))"
proof (intro conjI allI impI)
  fix fuel
  assume lt: "rank (name e) < fuel"
  then obtain f where f: "fuel = Suc f" by (cases fuel) auto
  have "rank b < f" if "b \<in> set (get_base_names (data e))" "idx b \<noteq> None" for b
  proof -
    from assms(1,3) that have "rank b < rank (name e)" by (auto simp: ranked_def)
    with lt f show ?thesis by simp
  qed
  from build_returns[OF assms(1) this] f
  show "\<exists>r. build_merged_for_entry fuel idx e st = Some r" by simp
next
  fix fuel view st'
  assume "build_merged_for_entry fuel idx e st = Some (Inr (view, st'))"
  from build_work[OF this assms] obtain ns where "fresh_work st st' ns" by blast
  then show "\<exists>evs. trace st' = trace st @ evs \<and> distinct (resolved_names evs)
                 \<and> set (resolved_names evs) \<inter> dom (cache st) = {}"
    by (auto simp: fresh_work_def)
qed

theorem acyclic_resolution_terminates_witness:
  "(\<exists>r. build_merged_for_entry (Suc (Suc (Suc 0))) dia_index dia_c init_state = Some r)
   \<and> (\<exists>view st'. build_merged_for_entry (Suc (Suc (Suc 0))) dia_index dia_c init_state
                    = Some (Inr (view, st'))
        \<and> resolved_names (trace st') = [''C'', ''B'', ''A'']
        \<and> (\<exists>evs. trace st' = trace init_state @ evs \<and> distinct (resolved_names evs)))"
proof -
  have c: "dia_index (name dia_c) = Some dia_c"
    by (simp add: dia_index_def dia_c_def)
  note main = acyclic_resolution_terminates[OF dia_ranked dia_consistent c, of init_state]
  have "dia_rank (name dia_c) < Suc (Suc (Suc 0))"
    by (simp add: dia_rank_def dia_c_def)
  with main have ex: "\<exists>r. build_merged_for_entry (Suc (Suc (Suc 0))) dia_index dia_c init_state = Some r"
    by blast
  have "\<exists>view st'. build_merged_for_entry (Suc (Suc (Suc 0))) dia_index dia_c init_state
                    = Some (Inr (view, st'))
        \<and> resolved_names (trace st') = [''C'', ''B'', ''A'']"
    by (simp add: dia_index_def dia_a_def dia_b_def dia_c_def init_state_def get_base_names_def
          BASE_KEYS_def MERGE_LIST_KEYS_def Let_def own_only_def)
  then obtain view st' where
    run: "build_merged_for_entry (Suc (Suc (Suc 0))) dia_index dia_c init_state = Some (Inr (view, st'))"
    and names: "resolved_names (trace st') = [''C'', ''B'', ''A'']" by blast
  from main run have "\<exists>evs. trace st' = trace init_state @ evs \<and> distinct (resolved_names evs)"
    by blast
  with ex run names show ?thesis by blast
qed

section \<open>Resolution: missing bases\<close>

lemma resolve_bases_known_only:
  "resolve_bases fuel idx names merged anc st =
   resolve_bases fuel idx (filter (\<lambda>b. idx b \<noteq> None) names) merged anc st"
  by (induction names arbitrary: merged anc st) (auto split: option.splits sum.splits)

lemma own_only_absent:
  "k \<noteq> k' \<Longrightarrow> own_only k body (AList.update k' v body) = AList.update k' v body"
proof (cases "map_of body k")
  case None
  assume "k \<noteq> k'"
  with None have "k \<notin> fst ` set (AList.update k' v body)"
    by (simp add: dom_update map_of_eq_None_iff)
  with None show ?thesis by (simp add: own_only_def)
next
  case (Some d)
  assume "k \<noteq> k'"
  with Some have "map_of (AList.update k' v body) k = Some d"
    by (simp add: update_conv')
  with Some show ?thesis by (simp add: own_only_def update_triv)
qed

text \<open>
  Claim C7. A declared base name without a record in the index is skipped: the loop over
  the base names behaves as on the known names alone. When none of the declared bases is
  known, resolution returns without error, and the view is the leaf's own body with an
  empty \<^verbatim>\<open>_ancestors\<close> list.
\<close>

theorem missing_base_skipped:
  "resolve_bases fuel idx names merged anc st =
     resolve_bases fuel idx (filter (\<lambda>b. idx b \<noteq> None) names) merged anc st
   \<and> (cache st (name e) = None \<and> (\<forall>b \<in> set (get_base_names (data e)). idx b = None) \<longrightarrow>
        build_merged_for_entry (Suc fuel) idx e st =
          Some (Inr (AList.update ''_ancestors'' (YList []) (data e),
                     st\<lparr>trace := trace st @ [Resolved (name e)],
                        cache := (cache st)(name e \<mapsto>
                                   AList.update ''_ancestors'' (YList []) (data e))\<rparr>)))"
proof -
  have "build_merged_for_entry (Suc fuel) idx e st =
          Some (Inr (AList.update ''_ancestors'' (YList []) (data e),
                     st\<lparr>trace := trace st @ [Resolved (name e)],
                        cache := (cache st)(name e \<mapsto>
                                   AList.update ''_ancestors'' (YList []) (data e))\<rparr>))"
    if miss: "cache st (name e) = None"
    and ghosts: "\<forall>b \<in> set (get_base_names (data e)). idx b = None"
  proof -
    from ghosts have "filter (\<lambda>b. idx b \<noteq> None) (get_base_names (data e)) = []"
      by (simp add: filter_empty_conv)
    then have "resolve_bases fuel idx (get_base_names (data e)) (YDict (data e)) []
                 (st\<lparr>trace := trace st @ [Resolved (name e)]\<rparr>)
               = Some (Inr (YDict (data e), [], st\<lparr>trace := trace st @ [Resolved (name e)]\<rparr>))"
      by (subst resolve_bases_known_only) simp
    with miss show ?thesis
      by (simp add: Let_def own_only_absent)
  qed
  then show ?thesis using resolve_bases_known_only by blast
qed

theorem missing_base_skipped_witness:
  "build_merged_for_entry (Suc 0) Map.empty e_ghost init_state =
     Some (Inr ([(''name'', YStr ''Leaf''), (''inherits'', YList [YStr ''Ghost'']),
                 (''summary'', YStr ''a leaf''), (''_ancestors'', YList [])],
                \<lparr>cache = [''Leaf'' \<mapsto> [(''name'', YStr ''Leaf''), (''inherits'', YList [YStr ''Ghost'']),
                                       (''summary'', YStr ''a leaf''), (''_ancestors'', YList [])]],
                 trace = [Resolved ''Leaf'']\<rparr>))"
  using missing_base_skipped[where fuel = 0 and idx = Map.empty and st = init_state and e = e_ghost]
  by (simp add: e_ghost_def init_state_def)

section \<open>The navigation walker: results\<close>

lemma crumb_iff: "crumb nd \<noteq> [] \<longleftrightarrow> has_truthy_breadcrumb_field nd"
  by (auto simp: crumb_def node_meta_def has_truthy_breadcrumb_field_def py_or_def Let_def)

lemma scalar_walk: "\<not> is_dict v \<Longrightarrow> \<not> is_list v \<Longrightarrow> iter_reference_objects v crumbs = []"
  by (cases v) auto

lemma guarded_walk:
  "(\<lambda>kv. if is_dict (snd kv) \<or> is_list (snd kv)
         then iter_reference_objects (snd kv) c else [])
   = (\<lambda>kv. iter_reference_objects (snd kv) c)"
  by (auto simp: scalar_walk)

lemma walk_dict:
  "iter_reference_objects (YDict nd) crumbs =
     own_reference nd (crumbs @ crumb nd) @
     concat (map (\<lambda>kv. iter_reference_objects (snd kv) (crumbs @ crumb nd)) nd)"
  by (cases "node_meta nd = []") (simp_all add: Let_def crumb_def own_reference_def guarded_walk)

lemma walk_sound:
  "r \<in> set (iter_reference_objects root crumbs) \<Longrightarrow>
   \<exists>trail nd p. reaches root trail nd \<and> map_of nd ''path'' = Some (YStr p)
      \<and> r = \<lparr>ref_path = normalize_rel_path p, breadcrumbs = crumbs @ trail, node = YDict nd\<rparr>"
proof (induction root crumbs arbitrary: r rule: iter_reference_objects.induct)
  case (1 nd crumbs)
  from "1.prems" have "r \<in> set (own_reference nd (crumbs @ crumb nd)) \<or>
     (\<exists>kv \<in> set nd. r \<in> set (iter_reference_objects (snd kv) (crumbs @ crumb nd)))"
    unfolding walk_dict by auto
  then show ?case
  proof
    assume "r \<in> set (own_reference nd (crumbs @ crumb nd))"
    then have "\<exists>p. map_of nd ''path'' = Some (YStr p) \<and>
      r = \<lparr>ref_path = normalize_rel_path p, breadcrumbs = crumbs @ crumb nd, node = YDict nd\<rparr>"
      by (cases "map_of nd ''path''") (auto simp: own_reference_def split: yaml.splits)
    then obtain p where "map_of nd ''path'' = Some (YStr p)"
      "r = \<lparr>ref_path = normalize_rel_path p, breadcrumbs = crumbs @ crumb nd, node = YDict nd\<rparr>"
      by blast
    then show ?thesis using reaches.here by blast
  next
    assume "\<exists>kv \<in> set nd. r \<in> set (iter_reference_objects (snd kv) (crumbs @ crumb nd))"
    then obtain k v where kv: "(k, v) \<in> set nd"
      and r: "r \<in> set (iter_reference_objects v (crumbs @ crumb nd))" by auto
    from r have dl: "is_dict v \<or> is_list v" using scalar_walk by fastforce
    have cur: "(if node_meta nd \<noteq> [] then crumbs @ [node_meta nd] else crumbs) = crumbs @ crumb nd"
      by (simp add: crumb_def)
    from "1.IH"[OF refl refl kv _ , of r] dl r cur
    obtain trail t p where "reaches v trail t" "map_of t ''path'' = Some (YStr p)"
      "r = \<lparr>ref_path = normalize_rel_path p, breadcrumbs = (crumbs @ crumb nd) @ trail, node = YDict t\<rparr>"
      by auto
    then show ?thesis using reaches.child[OF kv] by fastforce
  qed
next
  case (2 xs crumbs)
  then obtain v where v: "v \<in> set xs" and r: "r \<in> set (iter_reference_objects v crumbs)" by auto
  from "2.IH"[OF v r] show ?case using reaches.item[OF v] by blast
qed auto

lemma walk_complete:
  "reaches root trail nd \<Longrightarrow> map_of nd ''path'' = Some (YStr p) \<Longrightarrow>
   \<lparr>ref_path = normalize_rel_path p, breadcrumbs = crumbs @ trail, node = YDict nd\<rparr>
     \<in> set (iter_reference_objects root crumbs)"
proof (induction arbitrary: crumbs rule: reaches.induct)
  case (here nd)
  then show ?case unfolding walk_dict by (simp add: own_reference_def)
next
  case (child k v nd trail target)
  from child.IH[OF child.prems, of "crumbs @ crumb nd"] child.hyps(1)
  show ?case unfolding walk_dict by force
next
  case (item v xs trail target)
  from item.IH[OF item.prems, of crumbs] item.hyps(1) show ?case by auto
qed

lemma walk_example: "iter_reference_objects nav_example [] = [ref_foo, ref_bar]"
  by (simp add: nav_example_def ref_foo_def ref_bar_def node_meta_def dict_get_def py_or_def
        normalize_rel_path_def Let_def)

text \<open>
  Claim C9 as stated fails: a node whose only breadcrumb field is an empty title, or an
  id that is zero, has a breadcrumb field and still contributes no entry to the trail,
  because lines 384-391 test the values for truth, not the fields for presence.
\<close>

theorem falsy_breadcrumb_field_no_entry:
  "has_breadcrumb_field blank_title_node
   \<and> iter_reference_objects (YDict blank_title_node) [] =
       [\<lparr>ref_path = ''a.yaml'', breadcrumbs = [], node = YDict blank_title_node\<rparr>]
   \<and> has_breadcrumb_field zero_id_node
   \<and> iter_reference_objects (YDict zero_id_node) [] =
       [\<lparr>ref_path = ''b.yaml'', breadcrumbs = [], node = YDict zero_id_node\<rparr>]"
  by (simp add: has_breadcrumb_field_def blank_title_node_def zero_id_node_def node_meta_def
        dict_get_def py_or_def normalize_rel_path_def Let_def)

text \<open>
  Claim C9, as the code has it. The walker is depth-first and pre-order: a mapping yields
  its own reference (when it has a string \<^verbatim>\<open>path\<close>) before the references of its values,
  which follow in document order and all start from the trail extended by this mapping's
  entry; a sequence walks its items in order on the unchanged trail. A mapping
  contributes one entry exactly when one of its breadcrumb fields holds a value that
  Python takes for true. The references yielded are exactly those of the mappings with a
  string \<^verbatim>\<open>path\<close> in the tree, each with the trail accumulated from the root down to and
  including it. The example of the specification yields its two references in document
  order.
\<close>

theorem walk_preorder_breadcrumbs:
  "iter_reference_objects (YDict nd) crumbs =
     own_reference nd (crumbs @ crumb nd) @
     concat (map (\<lambda>kv. iter_reference_objects (snd kv) (crumbs @ crumb nd)) nd)
   \<and> iter_reference_objects (YList xs) crumbs =
       concat (map (\<lambda>item. iter_reference_objects item crumbs) xs)
   \<and> (crumb nd = (if has_truthy_breadcrumb_field nd then [node_meta nd] else []))
   \<and> (r \<in> set (iter_reference_objects root crumbs) \<longleftrightarrow>
        (\<exists>trail target p. reaches root trail target \<and> map_of target ''path'' = Some (YStr p)
           \<and> r = \<lparr>ref_path = normalize_rel_path p, breadcrumbs = crumbs @ trail,
                   node = YDict target\<rparr>))
   \<and> iter_reference_objects nav_example [] = [ref_foo, ref_bar]"
proof -
  have "crumb nd = (if has_truthy_breadcrumb_field nd then [node_meta nd] else [])"
    using crumb_iff[of nd] by (auto simp: crumb_def)
  moreover have "r \<in> set (iter_reference_objects root crumbs) \<longleftrightarrow>
        (\<exists>trail target p. reaches root trail target \<and> map_of target ''path'' = Some (YStr p)
           \<and> r = \<lparr>ref_path = normalize_rel_path p, breadcrumbs = crumbs @ trail,
                   node = YDict target\<rparr>)"
    using walk_sound walk_complete by blast
  ultimately show ?thesis
    using walk_dict walk_example by simp
qed

theorem walk_preorder_breadcrumbs_witness:
  "\<exists>trail target p. reaches nav_example trail target \<and> map_of target ''path'' = Some (YStr p)
      \<and> ref_bar = \<lparr>ref_path = normalize_rel_path p, breadcrumbs = [] @ trail, node = YDict target\<rparr>"
proof -
  have "ref_bar \<in> set (iter_reference_objects nav_example [])"
    by (simp add: nav_example_def ref_foo_def ref_bar_def node_meta_def dict_get_def py_or_def
        normalize_rel_path_def Let_def)
  then show ?thesis
    using walk_preorder_breadcrumbs[where r = ref_bar and root = nav_example and crumbs = "[]"] by blast
qed


section \<open>The store: nothing old is written, nothing old is shared\<close>

lemma grows_refl: "grows n h h"
  by (simp add: grows_def)

lemma grows_trans: "grows n h1 h2 \<Longrightarrow> grows n h2 h3 \<Longrightarrow> grows n h1 h3"
  by (auto simp: grows_def)

lemma grows_length: "grows n h h' \<Longrightarrow> n \<le> length h \<Longrightarrow> n \<le> length h'"
  by (simp add: grows_def)

lemma cell_at_append: "cell_at (h @ [c]) a = (if a = length h then c else cell_at h a)"
  by (auto simp: cell_at_def nth_append)

lemma cell_at_update:
  "cell_at (h[b := c]) a = (if a = b \<and> b < length h then c else cell_at h a)"
  by (auto simp: cell_at_def)

lemma cell_at_beyond: "length h \<le> a \<Longrightarrow> cell_at h a = CList []"
  by (simp add: cell_at_def)

lemma grows_alloc:
  "n \<le> length h \<Longrightarrow> list_all (fresh n) (cell_vals c) \<Longrightarrow> grows n h (h @ [c])"
  by (auto simp: grows_def region_ok_def cell_at_append)

lemma grows_write:
  assumes "n \<le> b"
    and "region_ok n h \<Longrightarrow> list_all (fresh n) (cell_vals c)"
  shows "grows n h (h[b := c])"
  using assms by (auto simp: grows_def region_ok_def cell_at_update)

lemma region_cell: "region_ok n h \<Longrightarrow> n \<le> b \<Longrightarrow> list_all (fresh n) (cell_vals (cell_at h b))"
  by (simp add: region_ok_def)

lemma grows_list_append: "n \<le> b \<Longrightarrow> fresh n y \<Longrightarrow> grows n h (list_append h b y)"
  unfolding list_append_def
  by (rule grows_write) (auto dest!: region_cell[where b = b] split: cell.splits)

lemma update_vals: "set (map snd (AList.update k y d)) \<subseteq> insert y (set (map snd d))"
  by (induction d) auto

lemma delete_vals: "set (map snd (AList.delete k d)) \<subseteq> set (map snd d)"
  by (induction d) auto

lemma grows_dict_set: "n \<le> b \<Longrightarrow> fresh n y \<Longrightarrow> grows n h (dict_set h b k y)"
  unfolding dict_set_def
proof (rule grows_write)
  assume "n \<le> b" "fresh n y" "region_ok n h"
  then have "list_all (fresh n) (cell_vals (cell_at h b))" by (simp add: region_cell)
  with \<open>fresh n y\<close> show "list_all (fresh n)
     (cell_vals (case cell_at h b of CDict d \<Rightarrow> CDict (AList.update k y d) | c \<Rightarrow> c))"
    using update_vals[of k y] by (fastforce simp: list_all_iff split: cell.splits)
qed

lemma grows_dict_del: "n \<le> b \<Longrightarrow> grows n h (dict_del h b k)"
  unfolding dict_del_def
proof (rule grows_write)
  assume "n \<le> b" "region_ok n h"
  then have "list_all (fresh n) (cell_vals (cell_at h b))" by (simp add: region_cell)
  then show "list_all (fresh n)
     (cell_vals (case cell_at h b of CDict d \<Rightarrow> CDict (AList.delete k d) | c \<Rightarrow> c))"
    using delete_vals[of k] by (fastforce simp: list_all_iff split: cell.splits)
qed

lemma grows_append_all:
  "n \<le> b \<Longrightarrow> list_all (fresh n) xs \<Longrightarrow> grows n h (append_all h b xs)"
  unfolding append_all_def
proof (induction xs arbitrary: h)
  case Nil
  then show ?case by (simp add: grows_refl)
next
  case (Cons x xs)
  from Cons.prems have "grows n h (list_append h b x)" by (simp add: grows_list_append)
  moreover from Cons have "grows n (list_append h b x) (fold (\<lambda>x h'. list_append h' b x) xs (list_append h b x))"
    by simp
  ultimately show ?case by (auto intro: grows_trans)
qed

lemma deepcopy_safe:
  "deepcopy f h memo v = Some (h', memo', v') \<Longrightarrow> n \<le> length h \<Longrightarrow> memo_ok n memo \<Longrightarrow>
     grows n h h' \<and> memo_ok n memo' \<and> fresh n v'"
  and copy_list_safe:
  "copy_list f h memo b xs = Some (h', memo') \<Longrightarrow> n \<le> length h \<Longrightarrow> n \<le> b \<Longrightarrow> memo_ok n memo \<Longrightarrow>
     grows n h h' \<and> memo_ok n memo'"
  and copy_dict_safe:
  "copy_dict f h memo b d = Some (h', memo') \<Longrightarrow> n \<le> length h \<Longrightarrow> n \<le> b \<Longrightarrow> memo_ok n memo \<Longrightarrow>
     grows n h h' \<and> memo_ok n memo'"
proof (induction f h memo v and f h memo b xs and f h memo b d
       arbitrary: h' memo' v' and h' memo' and h' memo'
       rule: deepcopy_copy_list_copy_dict.induct)
  case (1 h memo v)
  then show ?case by simp
next
  case (2 f h memo v)
  show ?case
  proof (cases v)
    case (PRef a)
    show ?thesis
    proof (cases "memo a")
      case (Some b)
      with PRef "2.prems" show ?thesis
        by (auto simp: grows_refl memo_ok_def fresh_def)
    next
      case None
      have alloc: "n \<le> length (h @ [c])" for c using "2.prems"(2) by simp
      have mok: "memo_ok n (memo(a \<mapsto> length h))"
        using "2.prems"(2,3) by (auto simp: memo_ok_def)
      have fr: "fresh n (PRef (length h))" using "2.prems"(2) by (simp add: fresh_def)
      show ?thesis
      proof (cases "cell_at h a")
        case (CList xs)
        with PRef None "2.prems"(1) have
          run: "copy_list f (h @ [CList []]) (memo(a \<mapsto> length h)) (length h) xs = Some (h', memo')"
          and v': "v' = PRef (length h)"
          by (auto split: option.splits)
        from "2.IH"(1)[OF PRef None CList run alloc "2.prems"(2) mok]
        have "grows n (h @ [CList []]) h'" "memo_ok n memo'" by simp_all
        moreover have "grows n h (h @ [CList []])"
          using "2.prems"(2) by (simp add: grows_alloc)
        ultimately show ?thesis using fr v' by (auto intro: grows_trans)
      next
        case (CDict d)
        with PRef None "2.prems"(1) have
          run: "copy_dict f (h @ [CDict []]) (memo(a \<mapsto> length h)) (length h) d = Some (h', memo')"
          and v': "v' = PRef (length h)"
          by (auto split: option.splits)
        from "2.IH"(2)[OF PRef None CDict run alloc "2.prems"(2) mok]
        have "grows n (h @ [CDict []]) h'" "memo_ok n memo'" by simp_all
        moreover have "grows n h (h @ [CDict []])"
          using "2.prems"(2) by (simp add: grows_alloc)
        ultimately show ?thesis using fr v' by (auto intro: grows_trans)
      qed
    qed
  qed (use "2.prems" in \<open>auto simp: grows_refl fresh_def\<close>)
next
  case (3 f h memo b)
  then show ?case by (simp add: grows_refl)
next
  case (4 f h memo b x xs)
  from "4.prems"(1) obtain h1 memo1 y where
    c: "deepcopy f h memo x = Some (h1, memo1, y)"
    and rest: "copy_list f (list_append h1 b y) memo1 b xs = Some (h', memo')"
    by (auto split: option.splits)
  from "4.IH"(1)[OF c "4.prems"(2,4)] have
    g1: "grows n h h1" and m1: "memo_ok n memo1" and fy: "fresh n y" by simp_all
  have g2: "grows n h1 (list_append h1 b y)"
    using "4.prems"(3) fy by (simp add: grows_list_append)
  from grows_trans[OF g1 g2] have g12: "grows n h (list_append h1 b y)" .
  from grows_length[OF g12 "4.prems"(2)] have "n \<le> length (list_append h1 b y)" .
  from "4.IH"(2)[OF c refl refl rest this "4.prems"(3) m1] g12
  show ?case by (auto intro: grows_trans)
next
  case (5 f h memo b)
  then show ?case by (simp add: grows_refl)
next
  case (6 f h memo b k x d)
  from "6.prems"(1) obtain h1 memo1 y where
    c: "deepcopy f h memo x = Some (h1, memo1, y)"
    and rest: "copy_dict f (dict_set h1 b k y) memo1 b d = Some (h', memo')"
    by (auto split: option.splits)
  from "6.IH"(1)[OF c "6.prems"(2,4)] have
    g1: "grows n h h1" and m1: "memo_ok n memo1" and fy: "fresh n y" by simp_all
  have g2: "grows n h1 (dict_set h1 b k y)"
    using "6.prems"(3) fy by (simp add: grows_dict_set)
  from grows_trans[OF g1 g2] have g12: "grows n h (dict_set h1 b k y)" .
  from grows_length[OF g12 "6.prems"(2)] have "n \<le> length (dict_set h1 b k y)" .
  from "6.IH"(2)[OF c refl refl rest this "6.prems"(3) m1] g12
  show ?case by (auto intro: grows_trans)
qed

lemma deepcopy_fresh:
  "deepcopy f h Map.empty v = Some (h', memo', v') \<Longrightarrow> n \<le> length h \<Longrightarrow>
   grows n h h' \<and> fresh n v'"
  using deepcopy_safe[of f h Map.empty v h' memo' v' n] by (simp add: memo_ok_def)

lemma named_ok_update: "named_ok n named \<Longrightarrow> fresh n v \<Longrightarrow> named_ok n (AList.update k v named)"
  unfolding named_ok_def by (induction named) auto

lemma named_ok_lookup: "named_ok n named \<Longrightarrow> map_of named k = Some v \<Longrightarrow> fresh n v"
  by (auto simp: named_ok_def list_all_iff dest!: map_of_SomeD)

lemma base_members_h_safe:
  "base_members_h f h named mg xs = Some (Inr (h', named')) \<Longrightarrow> n \<le> length h \<Longrightarrow> n \<le> mg \<Longrightarrow>
   named_ok n named \<Longrightarrow> grows n h h' \<and> named_ok n named'"
proof (induction xs arbitrary: h named)
  case Nil
  then show ?case by (simp add: grows_refl)
next
  case (Cons it rest)
  from Cons.prems(1) obtain h1 memo it_copy where
    c: "deepcopy f h Map.empty it = Some (h1, memo, it_copy)"
    by (auto split: option.splits)
  from deepcopy_fresh[OF c Cons.prems(2)] have g1: "grows n h h1" and fc: "fresh n it_copy"
    by simp_all
  from grows_length[OF g1 Cons.prems(2)] have l1: "n \<le> length h1" .
  show ?case
  proof (cases "member_name_h h1 it_copy")
    case None
    with Cons.prems(1) c have
      rest: "base_members_h f (list_append h1 mg it_copy) named mg rest = Some (Inr (h', named'))"
      by simp
    have g2: "grows n h1 (list_append h1 mg it_copy)"
      using Cons.prems(3) fc by (simp add: grows_list_append)
    from Cons.IH[OF rest grows_length[OF g2 l1] Cons.prems(3,4)] g1 g2
    show ?thesis by (auto intro: grows_trans)
  next
    case (Some nv)
    with Cons.prems(1) c obtain key where
      rest: "base_members_h f h1 (AList.update key it_copy named) mg rest = Some (Inr (h', named'))"
      by (auto split: sum.splits)
    from Cons.IH[OF rest l1 Cons.prems(3) named_ok_update[OF Cons.prems(4) fc]] g1
    show ?thesis by (auto intro: grows_trans)
  qed
qed

lemma merge_member_h_safe:
  assumes "merger_safe n rec"
    and "merge_member_h rec f h named mg it = Some (Inr (h', named'))"
    and "n \<le> length h" and "n \<le> mg" and "named_ok n named"
  shows "grows n h h' \<and> named_ok n named'"
proof -
  from assms(2) obtain h1 memo it_copy where
    c: "deepcopy f h Map.empty it = Some (h1, memo, it_copy)"
    by (auto simp: merge_member_h_def split: option.splits)
  from deepcopy_fresh[OF c assms(3)] have g1: "grows n h h1" and fc: "fresh n it_copy"
    by simp_all
  from grows_length[OF g1 assms(3)] have l1: "n \<le> length h1" .
  show ?thesis
  proof (cases "member_name_h h1 it_copy")
    case None
    with assms(2) c have "h' = list_append h1 mg it_copy" "named' = named"
      by (simp_all add: merge_member_h_def)
    with g1 grows_list_append[OF assms(4) fc, of h1] assms(5) show ?thesis
      by (auto intro: grows_trans)
  next
    case (Some nv)
    with assms(2) c obtain key where key: "hash_pkey nv = Inr key"
      by (auto simp: merge_member_h_def split: sum.splits)
    show ?thesis
    proof (cases "map_of named key")
      case None
      with assms(2) c Some key have "h' = h1" "named' = AList.update key it_copy named"
        by (simp_all add: merge_member_h_def)
      with g1 named_ok_update[OF assms(5) fc] show ?thesis by simp
    next
      case (Some prev)
      with assms(2) c \<open>member_name_h h1 it_copy = Some nv\<close> key obtain m where
        r: "rec h1 prev it_copy = Some (Inr (h', m))" and n': "named' = AList.update key m named"
        by (auto simp: merge_member_h_def split: option.splits sum.splits)
      from assms(1) r l1 have "grows n h1 h'" "fresh n m" by (auto simp: merger_safe_def)
      with g1 n' named_ok_update[OF assms(5)] show ?thesis by (auto intro: grows_trans)
    qed
  qed
qed

lemma merge_members_h_safe:
  assumes "merger_safe n rec"
  shows "merge_members_h rec f h named mg xs = Some (Inr (h', named')) \<Longrightarrow> n \<le> length h \<Longrightarrow>
     n \<le> mg \<Longrightarrow> named_ok n named \<Longrightarrow> grows n h h' \<and> named_ok n named'"
proof (induction xs arbitrary: h named)
  case Nil
  then show ?case by (simp add: grows_refl)
next
  case (Cons it rest)
  from Cons.prems(1) obtain h1 named1 where
    one: "merge_member_h rec f h named mg it = Some (Inr (h1, named1))"
    and rest: "merge_members_h rec f h1 named1 mg rest = Some (Inr (h', named'))"
    by (auto split: option.splits sum.splits)
  from merge_member_h_safe[OF assms one Cons.prems(2,3,4)] have
    g1: "grows n h h1" and n1: "named_ok n named1" by simp_all
  from Cons.IH[OF rest grows_length[OF g1 Cons.prems(2)] Cons.prems(3) n1] g1
  show ?case by (auto intro: grows_trans)
qed

lemma store_copy_safe:
  assumes "store_copy f h res k v = Some (Inr h')" and "n \<le> length h" and "n \<le> res"
  shows "grows n h h'"
proof -
  from assms(1) obtain h1 memo c where
    c: "deepcopy f h Map.empty v = Some (h1, memo, c)" and h': "h' = dict_set h1 res k c"
    by (auto simp: store_copy_def split: option.splits)
  from deepcopy_fresh[OF c assms(2)] have "grows n h h1" "fresh n c" by simp_all
  with h' grows_dict_set[OF assms(3), of c h1 k] show ?thesis by (auto intro: grows_trans)
qed

lemma key_str_inv: "key_str k \<noteq> None \<Longrightarrow> KStr (the (key_str k)) = k"
  by (cases k) auto

lemma key_num_inv: "key_num k \<noteq> None \<Longrightarrow> KNum (the (key_num k)) = k"
  by (cases k) auto

lemma sorted_keys_set:
  assumes "sorted_keys ks = Inr ns"
  shows "set ns = set ks"
proof (cases "length ks \<le> 1")
  case True
  with assms show ?thesis by (simp add: sorted_keys_def)
next
  case False
  note long = False
  show ?thesis
  proof (cases "list_all (\<lambda>k. key_str k \<noteq> None) ks")
    case True
    with assms long have "ns = map KStr (sort (map (\<lambda>k. the (key_str k)) ks))"
      by (simp add: sorted_keys_def)
    then have "set ns = (\<lambda>k. KStr (the (key_str k))) ` set ks" by (simp add: image_image)
    also have "\<dots> = (\<lambda>k. k) ` set ks"
      using True by (intro image_cong) (auto simp: list_all_iff key_str_inv)
    finally show ?thesis by simp
  next
    case False
    with assms long have all: "list_all (\<lambda>k. key_num k \<noteq> None) ks"
      and "ns = map KNum (sort (map (\<lambda>k. the (key_num k)) ks))"
      by (auto simp: sorted_keys_def split: if_splits)
    then have "set ns = (\<lambda>k. KNum (the (key_num k))) ` set ks" by (simp add: image_image)
    also have "\<dots> = (\<lambda>k. k) ` set ks"
      using all by (intro image_cong) (auto simp: list_all_iff key_num_inv)
    finally show ?thesis by simp
  qed
qed

lemma merge_item_h_safe:
  assumes safe: "merger_safe n rec"
    and run: "merge_item_h rec f h res k child_val = Some (Inr h')"
    and len: "n \<le> length h" and res: "n \<le> res"
  shows "grows n h h'"
proof (cases "map_of (dict_of h (PRef res)) k")
  case None
  with run have "store_copy f h res k child_val = Some (Inr h')"
    by (simp add: merge_item_h_def)
  from store_copy_safe[OF this len res] show ?thesis .
next
  case (Some base_val)
  consider (dicts) "is_dict_h h base_val \<and> is_dict_h h child_val"
    | (members) "\<not> (is_dict_h h base_val \<and> is_dict_h h child_val)"
        "is_list_h h base_val \<and> is_list_h h child_val \<and> k \<in> MERGE_LIST_KEYS"
    | (other) "\<not> (is_dict_h h base_val \<and> is_dict_h h child_val)"
        "\<not> (is_list_h h base_val \<and> is_list_h h child_val \<and> k \<in> MERGE_LIST_KEYS)"
    by blast
  then show ?thesis
  proof cases
    case dicts
    with run Some obtain h1 v where
      r: "rec h base_val child_val = Some (Inr (h1, v))" and h': "h' = dict_set h1 res k v"
      by (auto simp: merge_item_h_def split: option.splits sum.splits)
    from safe r len have "grows n h h1" "fresh n v" by (auto simp: merger_safe_def)
    with h' grows_dict_set[OF res, of v h1 k] show ?thesis by (auto intro: grows_trans)
  next
    case members
    let ?mg = "length h"
    from run Some members obtain h1 named0 h2 named ns where
      bm: "base_members_h f (h @ [CList []]) [] ?mg (list_of h base_val) = Some (Inr (h1, named0))"
      and mm: "merge_members_h rec f h1 named0 ?mg (list_of h1 child_val) = Some (Inr (h2, named))"
      and ns: "sorted_keys (map fst named) = Inr ns"
      and h': "h' = dict_set (append_all h2 ?mg (map (\<lambda>key. the (map_of named key)) ns))
                      res k (PRef ?mg)"
      by (auto simp: merge_item_h_def split: option.splits sum.splits)
    have g0: "grows n h (h @ [CList []])" using len by (simp add: grows_alloc)
    have l0: "n \<le> length (h @ [CList []])" using len by simp
    from base_members_h_safe[OF bm l0 len] have
      g1: "grows n (h @ [CList []]) h1" and n0: "named_ok n named0"
      by (simp_all add: named_ok_def)
    from grows_length[OF g1 l0] have l1: "n \<le> length h1" .
    from merge_members_h_safe[OF safe mm l1 len n0] have
      g2: "grows n h1 h2" and nm: "named_ok n named" by simp_all
    have keys: "set ns \<subseteq> fst ` set named"
      using sorted_keys_set[OF ns] by simp
    have "fresh n (the (map_of named key))" if "key \<in> set ns" for key
    proof -
      from that keys obtain v where "map_of named key = Some v"
        by (metis map_of_eq_None_iff not_Some_eq subsetD)
      with named_ok_lookup[OF nm] show ?thesis by simp
    qed
    then have "list_all (fresh n) (map (\<lambda>key. the (map_of named key)) ns)"
      by (simp add: list_all_iff)
    from grows_append_all[OF len this] have
      g3: "grows n h2 (append_all h2 ?mg (map (\<lambda>key. the (map_of named key)) ns))" .
    have "fresh n (PRef ?mg)" using len by (simp add: fresh_def)
    from grows_dict_set[OF res this] h' have
      g4: "grows n (append_all h2 ?mg (map (\<lambda>key. the (map_of named key)) ns)) h'" by simp
    from g0 g1 g2 g3 g4 show ?thesis by (blast intro: grows_trans)
  next
    case other
    with run Some have "store_copy f h res k child_val = Some (Inr h')"
      by (auto simp: merge_item_h_def)
    from store_copy_safe[OF this len res] show ?thesis .
  qed
qed

lemma merge_items_h_safe:
  assumes "merger_safe n rec"
  shows "merge_items_h rec f h res items = Some (Inr (h', r)) \<Longrightarrow> n \<le> length h \<Longrightarrow> n \<le> res \<Longrightarrow>
     grows n h h' \<and> fresh n r"
proof (induction items arbitrary: h)
  case Nil
  then show ?case by (auto simp: grows_refl fresh_def)
next
  case (Cons kv rest)
  obtain k v where kv: "kv = (k, v)" by (cases kv)
  from Cons.prems(1) kv obtain h1 where
    one: "merge_item_h rec f h res k v = Some (Inr h1)"
    and rest: "merge_items_h rec f h1 res rest = Some (Inr (h', r))"
    by (auto split: option.splits sum.splits)
  from merge_item_h_safe[OF assms one Cons.prems(2,3)] have g1: "grows n h h1" .
  from Cons.IH[OF rest grows_length[OF g1 Cons.prems(2)] Cons.prems(3)] g1
  show ?case by (auto intro: grows_trans)
qed

lemma deep_merge_body_safe:
  assumes "merger_safe n rec"
  shows "merger_safe n (deep_merge_body rec f)"
  unfolding merger_safe_def
proof (intro allI impI)
  fix h base child h' r
  assume run: "deep_merge_body rec f h base child = Some (Inr (h', r))" and len: "n \<le> length h"
  show "grows n h h' \<and> fresh n r"
  proof (cases "\<not> is_dict_h h base \<or> \<not> is_dict_h h child")
    case True
    with run obtain memo where "deepcopy f h Map.empty child = Some (h', memo, r)"
      by (auto simp: deep_merge_body_def split: option.splits)
    from deepcopy_fresh[OF this len] show ?thesis .
  next
    case False
    with run obtain h1 memo res where
      c: "deepcopy f h Map.empty base = Some (h1, memo, PRef res)"
      and m: "merge_items_h rec f h1 res (dict_of h1 child) = Some (Inr (h', r))"
      by (auto simp: deep_merge_body_def split: option.splits pval.splits)
    from deepcopy_fresh[OF c len] have g1: "grows n h h1" and "fresh n (PRef res)" by simp_all
    then have res: "n \<le> res" by (simp add: fresh_def)
    from merge_items_h_safe[OF assms m grows_length[OF g1 len] res] g1
    show ?thesis by (auto intro: grows_trans)
  qed
qed

lemma deep_merge_h_safe: "merger_safe n (deep_merge_h f)"
proof (induction f)
  case 0
  then show ?case by (simp add: merger_safe_def)
next
  case (Suc f)
  then show ?case by (simp add: deep_merge_body_safe)
qed

lemma reach_fresh:
  "reach h v b \<Longrightarrow> region_ok n h \<Longrightarrow> fresh n v \<Longrightarrow> n \<le> b"
proof (induction rule: reach.induct)
  case (here h a)
  then show ?case by (simp add: fresh_def)
next
  case (step v h a b)
  from step.prems have "n \<le> a" by (simp add: fresh_def)
  with step.prems(1) have "list_all (fresh n) (cell_vals (cell_at h a))" by (rule region_cell)
  with step.hyps(1) have "fresh n v" by (simp add: list_all_iff)
  with step show ?case by simp
qed

lemma region_ok_top: "region_ok (length h) h"
  by (simp add: region_ok_def cell_at_beyond)

lemma deep_merge_h_frame:
  assumes "deep_merge_h f h base child = Some (Inr (h', r))"
  shows "(\<forall>a < length h. cell_at h' a = cell_at h a) \<and> (\<forall>a. reach h' r a \<longrightarrow> length h \<le> a)"
proof -
  from deep_merge_h_safe[of "length h" f] assms have
    g: "grows (length h) h h'" and fr: "fresh (length h) r"
    by (auto simp: merger_safe_def)
  from g region_ok_top[of h] have "region_ok (length h) h'" by (simp add: grows_def)
  with fr reach_fresh have "\<forall>a. reach h' r a \<longrightarrow> length h \<le> a" by blast
  with g show ?thesis by (simp add: grows_def)
qed

lemma hashable_fresh: "hash_pkey a = Inr k \<Longrightarrow> fresh n a"
  by (cases a) (auto simp: fresh_def)

lemma dedupe_h_fresh:
  "dedupe_h seen acc xs = Inr ys \<Longrightarrow> list_all (fresh n) acc \<Longrightarrow> list_all (fresh n) ys"
proof (induction xs arbitrary: seen acc)
  case Nil
  then show ?case by simp
next
  case (Cons a rest)
  from Cons.prems(1) obtain k where k: "hash_pkey a = Inr k" by (auto split: sum.splits)
  from hashable_fresh[OF k] Cons.prems(2) have "list_all (fresh n) (acc @ [a])" by simp
  with Cons.IH[of seen acc] Cons.IH[of "insert k seen" "acc @ [a]"] Cons.prems k
  show ?case by (auto split: if_splits)
qed

lemma resolve_bases_h_safe:
  assumes "builder_safe n rec"
  shows "resolve_bases_h rec f idx names merged anc (h, views) = Some (Inr ((h', cache'), merged', anc'))
     \<Longrightarrow> n \<le> length h \<Longrightarrow> fresh n merged \<Longrightarrow>
     grows n h h' \<and> fresh n merged' \<and> (cache_ok n views \<longrightarrow> cache_ok n cache')"
proof (induction names arbitrary: merged anc h views)
  case Nil
  then show ?case by (simp add: grows_refl)
next
  case (Cons b rest)
  show ?case
  proof (cases "idx b")
    case None
    with Cons.prems Cons.IH[of merged anc h views] show ?thesis by simp
  next
    case (Some be)
    from Cons.prems(1) Some obtain h1 cache1 base_merged h2 merged1 anc1 where
      r: "rec be (h, views) = Some (Inr ((h1, cache1), base_merged))"
      and dm: "deep_merge_h f h1 base_merged merged = Some (Inr (h2, merged1))"
      and rest: "resolve_bases_h rec f idx rest merged1 anc1 (h2, cache1)
                   = Some (Inr ((h', cache'), merged', anc'))"
      by (auto split: option.splits sum.splits if_splits)
    from assms r Cons.prems(2) have g1: "grows n h h1"
      and c1: "cache_ok n views \<longrightarrow> cache_ok n cache1"
      by (auto simp: builder_safe_def)
    from grows_length[OF g1 Cons.prems(2)] have l1: "n \<le> length h1" .
    from deep_merge_h_safe[of n f] dm l1 have g2: "grows n h1 h2" and f1: "fresh n merged1"
      by (auto simp: merger_safe_def)
    from grows_length[OF g2 l1] have l2: "n \<le> length h2" .
    from Cons.IH[OF rest l2 f1] g1 g2 c1 show ?thesis by (auto intro: grows_trans)
  qed
qed

lemma build_body_safe:
  assumes "builder_safe n rec"
  shows "builder_safe n (build_body rec f idx)"
  unfolding builder_safe_def
proof (intro allI impI)
  fix e h views h' cache' v
  assume run: "build_body rec f idx e (h, views) = Some (Inr ((h', cache'), v))"
    and len: "n \<le> length h"
  show "grows n h h' \<and> (cache_ok n views \<longrightarrow> cache_ok n cache' \<and> fresh n v)"
  proof (cases "views (hname e)")
    case (Some view)
    with run have "h' = h" "cache' = views" "v = view" by (simp_all add: build_body_def)
    with Some show ?thesis by (auto simp: grows_refl cache_ok_def)
  next
    case None
    from run None obtain h1 memo merged0 h2 cache2 ancestors deduped m where
      c: "deepcopy f h Map.empty (hdata e) = Some (h1, memo, merged0)"
      and loop: "resolve_bases_h rec f idx (get_base_names_h h1 (hdata e)) merged0 [] (h1, views)
                   = Some (Inr ((h2, cache2), PRef m, ancestors))"
      and dd: "dedupe_h {} [] ancestors = Inr deduped"
      and v: "v = PRef m" and cache': "cache' = cache2(hname e \<mapsto> PRef m)"
      by (auto simp: build_body_def Let_def split: option.splits sum.splits pval.splits if_splits)
    let ?h3 = "dict_set (h2 @ [CList deduped]) m ''_ancestors'' (PRef (length h2))"
    from run None c loop dd have fin:
      "(\<exists>d h4 memo4 dcopy. deepcopy f ?h3 Map.empty d = Some (h4, memo4, dcopy)
          \<and> h' = dict_set h4 m ''descendants'' dcopy)
       \<or> h' = dict_del ?h3 m ''descendants''"
      by (auto simp: build_body_def Let_def split: option.splits sum.splits pval.splits if_splits)
    from deepcopy_fresh[OF c len] have g1: "grows n h h1" and f0: "fresh n merged0" by simp_all
    from grows_length[OF g1 len] have l1: "n \<le> length h1" .
    from resolve_bases_h_safe[OF assms loop l1 f0] have
      g2: "grows n h1 h2" and fm: "fresh n (PRef m)"
      and c2: "cache_ok n views \<longrightarrow> cache_ok n cache2" by simp_all
    from fm have m: "n \<le> m" by (simp add: fresh_def)
    from grows_length[OF g2 l1] have l2: "n \<le> length h2" .
    from dedupe_h_fresh[OF dd, of n] have "list_all (fresh n) (cell_vals (CList deduped))" by simp
    from grows_alloc[OF l2 this] have g3: "grows n h2 (h2 @ [CList deduped])" .
    have "fresh n (PRef (length h2))" using l2 by (simp add: fresh_def)
    from grows_dict_set[OF m this] have g4: "grows n (h2 @ [CList deduped]) ?h3" .
    from g1 g2 g3 g4 have g: "grows n h ?h3" by (blast intro: grows_trans)
    from grows_length[OF g len] have l3: "n \<le> length ?h3" .
    have "grows n ?h3 h'"
      using fin
    proof
      assume "\<exists>d h4 memo4 dcopy. deepcopy f ?h3 Map.empty d = Some (h4, memo4, dcopy)
          \<and> h' = dict_set h4 m ''descendants'' dcopy"
      then obtain d h4 memo4 dcopy where
        dc: "deepcopy f ?h3 Map.empty d = Some (h4, memo4, dcopy)"
        and h': "h' = dict_set h4 m ''descendants'' dcopy" by blast
      from deepcopy_fresh[OF dc l3] have "grows n ?h3 h4" "fresh n dcopy" by simp_all
      with h' grows_dict_set[OF m, of dcopy h4 "''descendants''"] show ?thesis
        by (auto intro: grows_trans)
    next
      assume "h' = dict_del ?h3 m ''descendants''"
      with grows_dict_del[OF m] show ?thesis by simp
    qed
    with g have "grows n h h'" by (rule grows_trans)
    moreover from c2 fm cache' v have "cache_ok n views \<longrightarrow> cache_ok n cache' \<and> fresh n v"
      by (auto simp: cache_ok_def)
    ultimately show ?thesis by simp
  qed
qed

lemma build_h_safe: "builder_safe n (build_merged_for_entry_h f idx)"
proof (induction f)
  case 0
  then show ?case by (simp add: builder_safe_def)
next
  case (Suc f)
  then show ?case by (simp add: build_body_safe)
qed

lemma cache_ok_empty: "cache_ok n Map.empty"
  by (simp add: cache_ok_def)

text \<open>
  Claim C10. Whenever \<^verbatim>\<open>deep_merge\<close> returns, every container that existed before the
  call is unchanged, and the result is built from containers created during the call
  only. Whenever \<^verbatim>\<open>build_merged_for_entry\<close> returns, every container that existed
  before the call is unchanged, the bodies of all records among them; and if the records
  lie below an address \<open>n\<close> from which on the store holds only the earlier views, then the
  returned view and every view in the cache are built from containers from \<open>n\<close> on only:
  they share no container with a record.
\<close>

theorem resolution_leaves_inputs_alone:
  "(deep_merge_h fuel h base child = Some (Inr (h', r)) \<longrightarrow>
      (\<forall>a < length h. cell_at h' a = cell_at h a) \<and> (\<forall>a. reach h' r a \<longrightarrow> length h \<le> a))
   \<and> (build_merged_for_entry_h fuel idx ent (h, views) = Some (Inr ((h2, cache2), view)) \<longrightarrow>
        (\<forall>a < length h. cell_at h2 a = cell_at h a) \<and>
        (\<forall>n \<le> length h. region_ok n h \<and> cache_ok n views \<longrightarrow>
           (\<forall>a. reach h2 view a \<longrightarrow> n \<le> a) \<and>
           (\<forall>k v a. cache2 k = Some v \<longrightarrow> reach h2 v a \<longrightarrow> n \<le> a)))"
proof -
  have A: "(\<forall>a < length h. cell_at h' a = cell_at h a) \<and> (\<forall>a. reach h' r a \<longrightarrow> length h \<le> a)"
    if "deep_merge_h fuel h base child = Some (Inr (h', r))"
    using deep_merge_h_frame[OF that] .
  have B: "\<forall>a < length h. cell_at h2 a = cell_at h a"
    if run: "build_merged_for_entry_h fuel idx ent (h, views) = Some (Inr ((h2, cache2), view))"
  proof -
    from build_h_safe[of "length h" fuel idx] run have "grows (length h) h h2"
      by (auto simp: builder_safe_def)
    then show ?thesis by (simp add: grows_def)
  qed
  have C: "\<forall>n \<le> length h. region_ok n h \<and> cache_ok n views \<longrightarrow>
           (\<forall>a. reach h2 view a \<longrightarrow> n \<le> a) \<and>
           (\<forall>k v a. cache2 k = Some v \<longrightarrow> reach h2 v a \<longrightarrow> n \<le> a)"
    if run: "build_merged_for_entry_h fuel idx ent (h, views) = Some (Inr ((h2, cache2), view))"
  proof (intro allI impI)
    fix n assume n: "n \<le> length h" and ok: "region_ok n h \<and> cache_ok n views"
    from build_h_safe[of n fuel idx] run n ok have
      g: "grows n h h2" and c2: "cache_ok n cache2" and fv: "fresh n view"
      by (auto simp: builder_safe_def)
    from g ok have r2: "region_ok n h2" by (simp add: grows_def)
    from reach_fresh[OF _ r2] fv c2
    show "(\<forall>a. reach h2 view a \<longrightarrow> n \<le> a) \<and>
           (\<forall>k v a. cache2 k = Some v \<longrightarrow> reach h2 v a \<longrightarrow> n \<le> a)"
      by (auto simp: cache_ok_def)
  qed
  from A B C show ?thesis by blast
qed

lemma leaf_run:
  "map_option (map_sum id (\<lambda>r. (length (fst (fst r)), snd r)))
     (build_merged_for_entry_h (Suc (Suc (Suc (Suc (Suc (Suc 0)))))) hidx leaf_entry
        (hrec, Map.empty))
   = Some (Inr (29, PRef 18))"
  by code_simp

theorem resolution_leaves_inputs_alone_witness:
  "\<exists>h2 cache2.
     build_merged_for_entry_h (Suc (Suc (Suc (Suc (Suc (Suc 0)))))) hidx leaf_entry (hrec, Map.empty)
       = Some (Inr ((h2, cache2), PRef 18)) \<and>
     (\<forall>a < length hrec. cell_at h2 a = cell_at hrec a) \<and>
     (\<forall>a. reach h2 (PRef 18) a \<longrightarrow> length hrec \<le> a)"
proof -
  from leaf_run obtain h2 cache2 where
    run: "build_merged_for_entry_h (Suc (Suc (Suc (Suc (Suc (Suc 0)))))) hidx leaf_entry
            (hrec, Map.empty) = Some (Inr ((h2, cache2), PRef 18))"
    by (cases "build_merged_for_entry_h (Suc (Suc (Suc (Suc (Suc (Suc 0)))))) hidx leaf_entry
                 (hrec, Map.empty)") (auto simp: map_sum_def split: sum.splits)
  from resolution_leaves_inputs_alone[where h = hrec and views = Map.empty
        and fuel = "Suc (Suc (Suc (Suc (Suc (Suc 0)))))"
        and idx = hidx and ent = leaf_entry and ?h2.0 = h2 and ?cache2.0 = cache2
        and view = "PRef 18"]
    run region_ok_top[of hrec] cache_ok_empty[of "length hrec"]
  show ?thesis by blast
qed

end
